theory Spec2Isabelle
  imports Complex_Main
begin

section \<open>Data model of \<^verbatim>\<open>SecureLockboxSystem\<close>\<close>

text \<open>
  The three buzzer patterns that \<^verbatim>\<open>audio_feedback\<close> is called with.
\<close>

datatype pattern = BeepSingle | BeepSuccess | BeepError

text \<open>
  The only exception the state-machine methods can raise by themselves: a list read out of
  range (\<^verbatim>\<open>self.correct_path[self.current_step]\<close>, \<^verbatim>\<open>self.led_pins[idx]\<close>).
\<close>

datatype error = IndexError

text \<open>
  One constructor per message that the modelled methods hand to \<^verbatim>\<open>log_event\<close>; the numbers
  are the values formatted into the message. The timestamp that \<^verbatim>\<open>log_event\<close> prepends is left
  out.
\<close>

datatype log_msg =
    ResetCompleted
  | AudioMock pattern
  | ButtonPressed nat nat
  | CorrectButton nat nat
  | SequenceCompleted
  | IncorrectButton nat nat
  | UnlockMock
  | UnlockInitiating
  | UnlockDone
  | SecurityLockout nat
  | TimerStarted real
  | LockoutExpired
  | PinEntryInitiated
  | PinTimeout
  | KeyPressed char
  | PinOk
  | AdminPinOk
  | InvalidPin
  | AdminActivated
  | AdminCompleted
  | SystemStarted
  | SystemError error
  | CleaningUp
  | ShutdownComplete

text \<open>
  The fields of the object. \<^verbatim>\<open>current_step\<close> and \<^verbatim>\<open>failed_attempts\<close> start at 0 and are only ever
  incremented or set to 0, so they are natural numbers. \<^verbatim>\<open>correct_path\<close> comes from the JSON
  configuration and may hold any integers. \<^verbatim>\<open>led_pins\<close> holds the \<^verbatim>\<open>value\<close> of each LED pin,
  \<open>status_led\<close> and \<open>buzzer\<close> the level last written to the status LED and buzzer pins.

  Three fields are not attributes of the Python object; they record effects:
  \<^item> \<open>clock\<close> is the time \<^verbatim>\<open>time.time()\<close> returns, in seconds, as a real number (the rounding
    of Python's floats is not modelled). Every \<^verbatim>\<open>time.sleep(d)\<close> of the source advances it by
    \<open>d\<close>; everything else takes no time.
  \<^item> \<open>unlock_calls\<close> counts the calls of \<^verbatim>\<open>unlock_mechanism\<close> (the actuator).
  \<^item> \<open>lockout_threads\<close> holds, for every \<^verbatim>\<open>lockout_timer\<close> thread that has been started and is
    still inside \<^verbatim>\<open>time.sleep(self.lockout_duration)\<close>, the time at which its sleep ends, in
    starting order.

  \<^verbatim>\<open>last_activity\<close> is written but never read and is left out, as are the pin numbers.
\<close>

record lockbox =
  hardware_available :: bool
  correct_path :: "int list"
  correct_pin_hash :: string
  admin_pin_hash :: string
  led_pins :: "bool list"
  status_led :: bool
  buzzer :: bool
  current_step :: nat
  unlocked :: bool
  system_locked :: bool
  failed_attempts :: nat
  event_log :: "log_msg list"
  clock :: real
  unlock_calls :: nat
  lockout_threads :: "real list"

text \<open>Fields that \<^verbatim>\<open>__init__\<close> sets once and nothing changes afterwards.\<close>

definition max_attempts :: nat where
  "max_attempts = 3"

definition lockout_duration :: real where
  "lockout_duration = 300"

definition max_log_entries :: nat where
  "max_log_entries = 1000"

definition keypad_keys :: "string list" where
  "keypad_keys = [''123'', ''456'', ''789'']"

text \<open>
  The outcome of a call: it returns a value, it raises (with the state at that moment), or it
  does not return, because it waits for a release that never comes or because the samples
  supplied for the environment ended while it was still looping.
\<close>

datatype 'a res = Ok 'a | Exc error lockbox | NoReturn

text \<open>
  What one button or keypad line shows when it is its turn in a scan:
  \<^item> \<open>Released\<close>: the first sample reads high (not pressed);
  \<^item> \<open>Bounce\<close>: the first sample reads low, the sample after the 50 ms debounce delay high;
  \<^item> \<open>Pressed n\<close>: both samples read low, and the release loop reads low \<open>n\<close> more times
    before it reads high;
  \<^item> \<open>Held\<close>: both samples read low and the line never goes high again.
\<close>

datatype reading = Released | Bounce | Pressed nat | Held

section \<open>Helper methods\<close>

definition sleep :: "real \<Rightarrow> lockbox \<Rightarrow> lockbox" where
  "sleep d s = s\<lparr>clock := clock s + d\<rparr>"

text \<open>
  \<^verbatim>\<open>log_event\<close>: append to \<^verbatim>\<open>self.event_log\<close> and drop the oldest entry beyond
  \<^verbatim>\<open>max_log_entries\<close>. Printing and the write to the log file (whose failure is swallowed) have no
  effect on the object.
\<close>

definition log_event :: "log_msg \<Rightarrow> lockbox \<Rightarrow> lockbox" where
  "log_event e s =
     (let l = event_log s @ [e]
      in s\<lparr>event_log := (if length l > max_log_entries then tl l else l)\<rparr>)"

definition reset_system :: "lockbox \<Rightarrow> lockbox" where
  "reset_system s =
     log_event ResetCompleted
       (s\<lparr>led_pins := map (\<lambda>_. False) (led_pins s),
          current_step := 0,
          unlocked := False,
          status_led := False\<rparr>)"

text \<open>One buzzer pulse: high, sleep \<open>on\<close>, low, sleep \<open>off\<close>.\<close>

definition beep :: "real \<Rightarrow> real \<Rightarrow> lockbox \<Rightarrow> lockbox" where
  "beep on off s = sleep off ((sleep on (s\<lparr>buzzer := True\<rparr>))\<lparr>buzzer := False\<rparr>)"

definition audio_feedback :: "pattern \<Rightarrow> lockbox \<Rightarrow> lockbox" where
  "audio_feedback p s =
     (if \<not> hardware_available s then log_event (AudioMock p) s
      else case p of
             BeepSingle \<Rightarrow> (sleep (1/10) (s\<lparr>buzzer := True\<rparr>))\<lparr>buzzer := False\<rparr>
           | BeepSuccess \<Rightarrow> (beep (1/10) (1/10) ^^ 3) s
           | BeepError \<Rightarrow> (beep (3/10) (1/10) ^^ 2) s)"

section \<open>Lockout\<close>

text \<open>One on/off cycle of the lockout flashing.\<close>

definition flash_all :: "lockbox \<Rightarrow> lockbox" where
  "flash_all s =
     sleep (2/10)
       ((sleep (2/10) (s\<lparr>led_pins := map (\<lambda>_. True) (led_pins s), status_led := True\<rparr>))
          \<lparr>led_pins := map (\<lambda>_. False) (led_pins s), status_led := False\<rparr>)"

text \<open>
  \<^verbatim>\<open>lockout_thread.start()\<close>: the new thread logs and goes to sleep for \<^verbatim>\<open>lockout_duration\<close>
  seconds.
\<close>

definition start_lockout_thread :: "lockbox \<Rightarrow> lockbox" where
  "start_lockout_thread s =
     log_event (TimerStarted lockout_duration)
       (s\<lparr>lockout_threads := lockout_threads s @ [clock s + lockout_duration]\<rparr>)"

definition initiate_lockout :: "lockbox \<Rightarrow> lockbox" where
  "initiate_lockout s =
     start_lockout_thread
       (audio_feedback BeepError
          ((flash_all ^^ 10)
             (log_event (SecurityLockout (failed_attempts s)) (s\<lparr>system_locked := True\<rparr>))))"

text \<open>What \<^verbatim>\<open>lockout_timer\<close> does when its sleep has ended.\<close>

definition lockout_timer :: "lockbox \<Rightarrow> lockbox" where
  "lockout_timer s =
     log_event LockoutExpired
       (reset_system (s\<lparr>system_locked := False, failed_attempts := 0\<rparr>))"

text \<open>
  The oldest sleeping \<^verbatim>\<open>lockout_timer\<close> thread wakes up. This can happen only when there is such
  a thread and its sleep is over.
\<close>

definition timer_expires :: "lockbox \<Rightarrow> lockbox option" where
  "timer_expires s =
     (case lockout_threads s of
        [] \<Rightarrow> None
      | w # ws \<Rightarrow> if w \<le> clock s then Some (lockout_timer (s\<lparr>lockout_threads := ws\<rparr>)) else None)"

section \<open>Sequence validator: \<^verbatim>\<open>check_tree_buttons\<close>\<close>

text \<open>
  The branch under \<^verbatim>\<open># Correct button pressed\<close>, once the LED index is known to be in range:
  light the LED, advance, and complete the sequence when the path is exhausted.
\<close>

definition correct_button :: "nat \<Rightarrow> lockbox \<Rightarrow> lockbox" where
  "correct_button idx s =
     (let s1 = s\<lparr>led_pins := (led_pins s)[idx := True], current_step := current_step s + 1\<rparr>;
          s2 = log_event (CorrectButton idx (current_step s1)) s1
      in if current_step s2 \<ge> length (correct_path s2) then
           log_event SequenceCompleted
             (audio_feedback BeepSuccess (s2\<lparr>unlocked := True, status_led := True\<rparr>))
         else s2)"

text \<open>The branch under \<^verbatim>\<open># Wrong button pressed\<close>.\<close>

definition wrong_button :: "nat \<Rightarrow> lockbox \<Rightarrow> lockbox" where
  "wrong_button idx s =
     (let s1 = audio_feedback BeepError (log_event (IncorrectButton idx (current_step s)) s);
          s2 = reset_system (s1\<lparr>failed_attempts := failed_attempts s1 + 1\<rparr>)
      in if failed_attempts s2 \<ge> max_attempts then initiate_lockout s2 else s2)"

text \<open>
  The body that \<^verbatim>\<open>check_tree_buttons\<close> runs for a confirmed press of button \<open>idx\<close>, from the
  log line up to (not including) the wait for the release. Reading \<^verbatim>\<open>correct_path\<close> or
  \<^verbatim>\<open>led_pins\<close> beyond the end raises.
\<close>

definition press_confirmed :: "nat \<Rightarrow> lockbox \<Rightarrow> lockbox res" where
  "press_confirmed idx s0 =
     (let s1 = audio_feedback BeepSingle (log_event (ButtonPressed idx (current_step s0)) s0)
      in if \<not> current_step s1 < length (correct_path s1) then Exc IndexError s1
         else if int idx = correct_path s1 ! current_step s1 then
           (if \<not> idx < length (led_pins s1) then Exc IndexError s1
            else Ok (correct_button idx s1))
         else Ok (wrong_button idx s1))"

text \<open>\<^verbatim>\<open>while not button.value: time.sleep(0.01)\<close>, for a line that reads low \<open>n\<close> more times.\<close>

fun wait_release :: "nat \<Rightarrow> lockbox \<Rightarrow> lockbox" where
  "wait_release 0 s = s"
| "wait_release (Suc n) s = wait_release n (sleep (1/100) s)"

text \<open>
  The \<^verbatim>\<open>for idx, button in enumerate(self.button_pins)\<close> loop, from index \<open>idx\<close> on; the list
  holds what each remaining button shows when the loop reaches it.
\<close>

fun scan_buttons :: "nat \<Rightarrow> reading list \<Rightarrow> lockbox \<Rightarrow> lockbox res" where
  "scan_buttons idx [] s = Ok s"
| "scan_buttons idx (r # rs) s =
     (if idx \<ge> 31 then Ok s
      else case r of
             Released \<Rightarrow> scan_buttons (idx + 1) rs s
           | Bounce \<Rightarrow> scan_buttons (idx + 1) rs (sleep (5/100) s)
           | Pressed n \<Rightarrow>
               (case press_confirmed idx (sleep (5/100) s) of
                  Ok s' \<Rightarrow> scan_buttons (idx + 1) rs (wait_release n s')
                | Exc e s' \<Rightarrow> Exc e s'
                | NoReturn \<Rightarrow> NoReturn)
           | Held \<Rightarrow>
               (case press_confirmed idx (sleep (5/100) s) of
                  Ok s' \<Rightarrow> NoReturn
                | Exc e s' \<Rightarrow> Exc e s'
                | NoReturn \<Rightarrow> NoReturn))"

definition check_tree_buttons :: "reading list \<Rightarrow> lockbox \<Rightarrow> lockbox res" where
  "check_tree_buttons rs s = (if system_locked s then Ok s else scan_buttons 0 rs s)"

section \<open>Credential verifier: \<^verbatim>\<open>scan_keypad\<close> and \<^verbatim>\<open>handle_pin_entry\<close>\<close>

text \<open>
  The rows of one keypad column, in the order of \<^verbatim>\<open>keypad_row_pins\<close>; \<open>rd row\<close> is what the
  row line shows while the column is driven low.
\<close>

fun scan_rows :: "(nat \<Rightarrow> reading) \<Rightarrow> nat \<Rightarrow> nat list \<Rightarrow> lockbox \<Rightarrow> (char option \<times> lockbox) res" where
  "scan_rows rd col [] s = Ok (None, s)"
| "scan_rows rd col (row # rows) s =
     (case rd row of
        Released \<Rightarrow> scan_rows rd col rows s
      | Bounce \<Rightarrow> scan_rows rd col rows (sleep (5/100) s)
      | Pressed n \<Rightarrow>
          Ok (Some (keypad_keys ! row ! col),
              audio_feedback BeepSingle (wait_release n (sleep (5/100) s)))
      | Held \<Rightarrow> NoReturn)"

fun scan_cols :: "(nat \<Rightarrow> nat \<Rightarrow> reading) \<Rightarrow> nat list \<Rightarrow> lockbox \<Rightarrow> (char option \<times> lockbox) res" where
  "scan_cols m [] s = Ok (None, s)"
| "scan_cols m (col # cols) s =
     (case scan_rows (m col) col [0, 1, 2] (sleep (1/1000) s) of
        Ok (None, s') \<Rightarrow> scan_cols m cols s'
      | Ok (Some key, s') \<Rightarrow> Ok (Some key, s')
      | Exc e s' \<Rightarrow> Exc e s'
      | NoReturn \<Rightarrow> NoReturn)"

text \<open>
  \<^verbatim>\<open>scan_keypad\<close>: column-major over the 3 by 3 matrix; \<open>m col row\<close> is what the line of that
  key shows. Switching the column pin between output and pulled-up input is not modelled.
\<close>

definition scan_keypad :: "(nat \<Rightarrow> nat \<Rightarrow> reading) \<Rightarrow> lockbox \<Rightarrow> (char option \<times> lockbox) res" where
  "scan_keypad m s = scan_cols m [0, 1, 2] s"

text \<open>
  \<^verbatim>\<open>hash_pin\<close>. The digest \<^verbatim>\<open>hashlib.sha256(...).hexdigest()\<close> belongs to the Python library, not
  to this program: it is the parameter \<open>H\<close>.
\<close>

definition salt :: string where
  "salt = ''lockbox_secure_salt_2024''"

definition hash_pin :: "(string \<Rightarrow> string) \<Rightarrow> string \<Rightarrow> string" where
  "hash_pin H pin = H (pin @ salt)"

text \<open>
  \<^verbatim>\<open>unlock_mechanism\<close>. The servo calls are taken to succeed (the source logs and swallows
  their exceptions).
\<close>

definition unlock_mechanism :: "lockbox \<Rightarrow> lockbox" where
  "unlock_mechanism s =
     (let s0 = s\<lparr>unlock_calls := unlock_calls s + 1\<rparr>
      in if \<not> hardware_available s0 then log_event UnlockMock s0
         else log_event UnlockDone
                (audio_feedback BeepSuccess
                   (sleep (5/10) (sleep 2 (sleep 1 (log_event UnlockInitiating s0))))))"

text \<open>One on/off cycle of the status LED in admin mode.\<close>

definition flash_status :: "lockbox \<Rightarrow> lockbox" where
  "flash_status s = sleep (2/10) ((sleep (2/10) (s\<lparr>status_led := True\<rparr>))\<lparr>status_led := False\<rparr>)"

definition admin_mode :: "lockbox \<Rightarrow> lockbox" where
  "admin_mode s =
     log_event AdminCompleted
       ((flash_status ^^ 5) (audio_feedback BeepSuccess (log_event AdminActivated s)))"

definition pin_timeout :: real where
  "pin_timeout = 30"

text \<open>
  The body of \<^verbatim>\<open>if len(entered_pin) == 4:\<close> in \<^verbatim>\<open>handle_pin_entry\<close>: the three-way comparison
  of the hash, in the order of the source. The result is the returned boolean and the state.
\<close>

definition pin_complete :: "(string \<Rightarrow> string) \<Rightarrow> string \<Rightarrow> lockbox \<Rightarrow> bool \<times> lockbox" where
  "pin_complete H entered_pin s =
     (if hash_pin H entered_pin = correct_pin_hash s then
        (True, unlock_mechanism (log_event PinOk s))
      else if hash_pin H entered_pin = admin_pin_hash s then
        (True, admin_mode (log_event AdminPinOk s))
      else
        let s1 = audio_feedback BeepError (log_event InvalidPin s);
            s2 = s1\<lparr>failed_attempts := failed_attempts s1 + 1\<rparr>
        in (False, if failed_attempts s2 \<ge> max_attempts then initiate_lockout s2 else s2))"

text \<open>
  The \<^verbatim>\<open>while True\<close> loop of \<^verbatim>\<open>handle_pin_entry\<close>, with its two local variables. The list holds
  the keypad matrix seen by each successive call of \<^verbatim>\<open>scan_keypad\<close>.
\<close>

fun pin_loop ::
  "(string \<Rightarrow> string) \<Rightarrow> string \<Rightarrow> real \<Rightarrow> (nat \<Rightarrow> nat \<Rightarrow> reading) list \<Rightarrow> lockbox
     \<Rightarrow> (bool \<times> lockbox) res" where
  "pin_loop H entered_pin start_time [] s = NoReturn"
| "pin_loop H entered_pin start_time (m # ms) s =
     (if clock s - start_time > pin_timeout then
        Ok (False, audio_feedback BeepError (log_event PinTimeout s))
      else
        case scan_keypad m s of
          Ok (None, s1) \<Rightarrow> pin_loop H entered_pin start_time ms (sleep (1/10) s1)
        | Ok (Some key, s1) \<Rightarrow>
            (if length (entered_pin @ [key]) = 4 then
               Ok (pin_complete H (entered_pin @ [key]) (log_event (KeyPressed key) s1))
             else
               pin_loop H (entered_pin @ [key]) (clock s1) ms
                 (sleep (1/10) (log_event (KeyPressed key) s1)))
        | Exc e s' \<Rightarrow> Exc e s'
        | NoReturn \<Rightarrow> NoReturn)"

definition handle_pin_entry ::
  "(string \<Rightarrow> string) \<Rightarrow> (nat \<Rightarrow> nat \<Rightarrow> reading) list \<Rightarrow> lockbox \<Rightarrow> (bool \<times> lockbox) res" where
  "handle_pin_entry H ms s = pin_loop H [] (clock s) ms (log_event PinEntryInitiated s)"

section \<open>Access state machine: \<^verbatim>\<open>main_loop\<close>\<close>

text \<open>
  What the environment shows during one iteration of the main loop: the button lines of the
  scan, and the keypad matrices of the PIN entry (used only if the iteration gets there).
\<close>

record iter_input =
  buttons :: "reading list"
  keypad :: "(nat \<Rightarrow> nat \<Rightarrow> reading) list"

text \<open>The \<^verbatim>\<open>if self.unlocked:\<close> block of the loop body; both branches end in \<^verbatim>\<open>reset_system\<close>.\<close>

definition pin_phase ::
  "(string \<Rightarrow> string) \<Rightarrow> (nat \<Rightarrow> nat \<Rightarrow> reading) list \<Rightarrow> lockbox \<Rightarrow> lockbox res" where
  "pin_phase H ms s =
     (case handle_pin_entry H ms s of
        Ok (ok, s') \<Rightarrow> Ok (if ok then reset_system (sleep 5 s') else reset_system s')
      | Exc e s' \<Rightarrow> Exc e s'
      | NoReturn \<Rightarrow> NoReturn)"

text \<open>One pass through the body of \<^verbatim>\<open>while True\<close>, including the final \<^verbatim>\<open>time.sleep(0.1)\<close>.\<close>

definition main_iteration :: "(string \<Rightarrow> string) \<Rightarrow> iter_input \<Rightarrow> lockbox \<Rightarrow> lockbox res" where
  "main_iteration H inp s =
     (if \<not> system_locked s then
        (case check_tree_buttons (buttons inp) s of
           Ok s1 \<Rightarrow>
             (if unlocked s1 then
                (case pin_phase H (keypad inp) s1 of
                   Ok s2 \<Rightarrow> Ok (sleep (1/10) s2)
                 | Exc e s' \<Rightarrow> Exc e s'
                 | NoReturn \<Rightarrow> NoReturn)
              else Ok (sleep (1/10) s1))
         | Exc e s' \<Rightarrow> Exc e s'
         | NoReturn \<Rightarrow> NoReturn)
      else Ok (sleep (1/10) s))"

definition cleanup :: "lockbox \<Rightarrow> lockbox" where
  "cleanup s = log_event ShutdownComplete (log_event CleaningUp s)"

text \<open>
  The process as a whole. The main thread runs loop iterations; between two of them a sleeping
  \<^verbatim>\<open>lockout_timer\<close> thread whose time has come may run. \<^verbatim>\<open>except Exception\<close> in \<^verbatim>\<open>main_loop\<close> logs,
  cleans up and leaves the loop, which ends the process (the timer threads are daemons).
\<close>

datatype event = Iteration iter_input | TimerExpires

datatype process = Alive lockbox | Exited lockbox | Blocked | NotEnabled

fun run :: "(string \<Rightarrow> string) \<Rightarrow> event list \<Rightarrow> lockbox \<Rightarrow> process" where
  "run H [] s = Alive s"
| "run H (Iteration inp # es) s =
     (case main_iteration H inp s of
        Ok s' \<Rightarrow> run H es s'
      | Exc e s' \<Rightarrow> Exited (cleanup (log_event (SystemError e) s'))
      | NoReturn \<Rightarrow> Blocked)"
| "run H (TimerExpires # es) s =
     (case timer_expires s of
        Some s' \<Rightarrow> run H es s'
      | None \<Rightarrow> NotEnabled)"

definition main_loop :: "(string \<Rightarrow> string) \<Rightarrow> event list \<Rightarrow> lockbox \<Rightarrow> process" where
  "main_loop H es s = run H es (log_event SystemStarted s)"

text \<open>
  The values \<^verbatim>\<open>__init__\<close> gives the fields, for a configuration that holds the given path and
  hashes, and the default configuration of \<^verbatim>\<open>load_configuration\<close>. The LED pins are created with
  value \<^verbatim>\<open>False\<close> on the hardware and are \<^verbatim>\<open>MockPin\<close>s (value \<^verbatim>\<open>True\<close>) without it.
\<close>

definition initial :: "bool \<Rightarrow> int list \<Rightarrow> string \<Rightarrow> string \<Rightarrow> lockbox" where
  "initial hw path pin_hash admin_hash =
     \<lparr>hardware_available = hw,
      correct_path = path,
      correct_pin_hash = pin_hash,
      admin_pin_hash = admin_hash,
      led_pins = replicate 31 (\<not> hw),
      status_led = False,
      buzzer = False,
      current_step = 0,
      unlocked = False,
      system_locked = False,
      failed_attempts = 0,
      event_log = [],
      clock = 0,
      unlock_calls = 0,
      lockout_threads = []\<rparr>"

definition default_config :: "(string \<Rightarrow> string) \<Rightarrow> bool \<Rightarrow> lockbox" where
  "default_config H hw = initial hw [0, 1, 3, 7, 15] (hash_pin H ''1234'') (hash_pin H ''9999'')"

section \<open>Auxiliary definitions for the statements\<close>

text \<open>The time each buzzer pattern takes on the hardware: the sum of its sleeps.\<close>

definition audio_time :: "pattern \<Rightarrow> real" where
  "audio_time p = (case p of BeepSingle \<Rightarrow> 1/10 | BeepSuccess \<Rightarrow> 6/10 | BeepError \<Rightarrow> 8/10)"

text \<open>
  The state of a process that is still running, and whether a process has ended through the
  exception handler of \<^verbatim>\<open>main_loop\<close>.
\<close>

definition alive :: "process \<Rightarrow> lockbox option" where
  "alive p = (case p of Alive s \<Rightarrow> Some s | Exited s \<Rightarrow> None | Blocked \<Rightarrow> None | NotEnabled \<Rightarrow> None)"

definition exited :: "process \<Rightarrow> bool" where
  "exited p = (case p of Exited s \<Rightarrow> True | Alive s \<Rightarrow> False | Blocked \<Rightarrow> False | NotEnabled \<Rightarrow> False)"

text \<open>
  Two states agree when they differ at most in the buzzer level, the event log and the clock:
  this is all that scanning, sleeping, logging and beeping change.
\<close>

definition agree :: "lockbox \<Rightarrow> lockbox \<Rightarrow> bool" where
  "agree s s' \<longleftrightarrow>
     hardware_available s' = hardware_available s \<and>
     correct_path s' = correct_path s \<and>
     correct_pin_hash s' = correct_pin_hash s \<and>
     admin_pin_hash s' = admin_pin_hash s \<and>
     led_pins s' = led_pins s \<and>
     status_led s' = status_led s \<and>
     current_step s' = current_step s \<and>
     unlocked s' = unlocked s \<and>
     system_locked s' = system_locked s \<and>
     failed_attempts s' = failed_attempts s \<and>
     unlock_calls s' = unlock_calls s \<and>
     lockout_threads s' = lockout_threads s"

text \<open>
  Concrete environments: a scan of the 31 buttons in which exactly the listed buttons are
  down when the scan reaches them (each released at once), a keypad matrix with one key down,
  one with none, a loop iteration with the listed buttons down and no keypad samples, and an
  iteration in which nothing is pressed.
\<close>

definition pressing :: "nat list \<Rightarrow> reading list" where
  "pressing bs = map (\<lambda>i. if i \<in> set bs then Pressed 0 else Released) [0..<31]"

definition key_at :: "nat \<Rightarrow> nat \<Rightarrow> nat \<Rightarrow> nat \<Rightarrow> reading" where
  "key_at col row = (\<lambda>c r. if c = col \<and> r = row then Pressed 0 else Released)"

definition no_key :: "nat \<Rightarrow> nat \<Rightarrow> reading" where
  "no_key = (\<lambda>c r. Released)"

text \<open>
  A keypad matrix whose one key is down when the scan reaches it and stays down for \<open>n\<close> more
  polls of the release loop (10 ms each), and the value and the state a call returned.
\<close>

definition key_down :: "nat \<Rightarrow> nat \<Rightarrow> nat \<Rightarrow> nat \<Rightarrow> nat \<Rightarrow> reading" where
  "key_down col row n = (\<lambda>c r. if c = col \<and> r = row then Pressed n else Released)"

definition returned :: "'a res \<Rightarrow> 'a option" where
  "returned r = (case r of Ok x \<Rightarrow> Some x | Exc e s \<Rightarrow> None | NoReturn \<Rightarrow> None)"

definition press :: "nat list \<Rightarrow> event" where
  "press bs = Iteration \<lparr>buttons = pressing bs, keypad = []\<rparr>"

definition idle :: event where
  "idle = press []"

text \<open>The keys 1, 2, 3, 4 typed one after the other.\<close>

definition enter_1234 :: "(nat \<Rightarrow> nat \<Rightarrow> reading) list" where
  "enter_1234 = [key_at 0 0, key_at 1 0, key_at 2 0, key_at 0 1]"

text \<open>
  A stand-in for the digest in statements about concrete runs (the program only ever compares
  digests for equality), and the lockbox with the default configuration on the hardware.
\<close>

definition plain_digest :: "string \<Rightarrow> string" where
  "plain_digest m = m"

definition box :: lockbox where
  "box = default_config plain_digest True"

text \<open>
  A concrete run. Buttons 1, 2, 3 and 4 are down in one scan pass of the fresh lockbox: the
  third wrong press starts a lockout, the fourth is still processed and starts another. The
  main loop then idles until the first cooldown thread wakes up.
\<close>

definition double_lockout :: "event list" where
  "double_lockout = press [1, 2, 3, 4] # replicate 2942 idle @ [TimerExpires]"

section \<open>Basic facts: what each method does to each field\<close>

lemma funpow_keeps: "(\<And>s. f (g s) = f s) \<Longrightarrow> f ((g ^^ n) s) = f s"
  by (induction n) simp_all

lemma sleep_sel [simp]:
  "hardware_available (sleep d s) = hardware_available s"
  "correct_path (sleep d s) = correct_path s"
  "correct_pin_hash (sleep d s) = correct_pin_hash s"
  "admin_pin_hash (sleep d s) = admin_pin_hash s"
  "led_pins (sleep d s) = led_pins s"
  "status_led (sleep d s) = status_led s"
  "buzzer (sleep d s) = buzzer s"
  "current_step (sleep d s) = current_step s"
  "unlocked (sleep d s) = unlocked s"
  "system_locked (sleep d s) = system_locked s"
  "failed_attempts (sleep d s) = failed_attempts s"
  "event_log (sleep d s) = event_log s"
  "clock (sleep d s) = clock s + d"
  "unlock_calls (sleep d s) = unlock_calls s"
  "lockout_threads (sleep d s) = lockout_threads s"
  by (simp_all add: sleep_def)

lemma log_event_sel [simp]:
  "hardware_available (log_event e s) = hardware_available s"
  "correct_path (log_event e s) = correct_path s"
  "correct_pin_hash (log_event e s) = correct_pin_hash s"
  "admin_pin_hash (log_event e s) = admin_pin_hash s"
  "led_pins (log_event e s) = led_pins s"
  "status_led (log_event e s) = status_led s"
  "buzzer (log_event e s) = buzzer s"
  "current_step (log_event e s) = current_step s"
  "unlocked (log_event e s) = unlocked s"
  "system_locked (log_event e s) = system_locked s"
  "failed_attempts (log_event e s) = failed_attempts s"
  "clock (log_event e s) = clock s"
  "unlock_calls (log_event e s) = unlock_calls s"
  "lockout_threads (log_event e s) = lockout_threads s"
  by (simp_all add: log_event_def Let_def)

lemma reset_system_sel [simp]:
  "hardware_available (reset_system s) = hardware_available s"
  "correct_path (reset_system s) = correct_path s"
  "correct_pin_hash (reset_system s) = correct_pin_hash s"
  "admin_pin_hash (reset_system s) = admin_pin_hash s"
  "led_pins (reset_system s) = map (\<lambda>_. False) (led_pins s)"
  "status_led (reset_system s) = False"
  "buzzer (reset_system s) = buzzer s"
  "current_step (reset_system s) = 0"
  "unlocked (reset_system s) = False"
  "system_locked (reset_system s) = system_locked s"
  "failed_attempts (reset_system s) = failed_attempts s"
  "clock (reset_system s) = clock s"
  "unlock_calls (reset_system s) = unlock_calls s"
  "lockout_threads (reset_system s) = lockout_threads s"
  by (simp_all add: reset_system_def)

lemma beep_sel [simp]:
  "hardware_available (beep a b s) = hardware_available s"
  "correct_path (beep a b s) = correct_path s"
  "correct_pin_hash (beep a b s) = correct_pin_hash s"
  "admin_pin_hash (beep a b s) = admin_pin_hash s"
  "led_pins (beep a b s) = led_pins s"
  "status_led (beep a b s) = status_led s"
  "buzzer (beep a b s) = False"
  "current_step (beep a b s) = current_step s"
  "unlocked (beep a b s) = unlocked s"
  "system_locked (beep a b s) = system_locked s"
  "failed_attempts (beep a b s) = failed_attempts s"
  "event_log (beep a b s) = event_log s"
  "clock (beep a b s) = clock s + a + b"
  "unlock_calls (beep a b s) = unlock_calls s"
  "lockout_threads (beep a b s) = lockout_threads s"
  by (simp_all add: beep_def)

lemma audio_feedback_sel [simp]:
  "hardware_available (audio_feedback p s) = hardware_available s"
  "correct_path (audio_feedback p s) = correct_path s"
  "correct_pin_hash (audio_feedback p s) = correct_pin_hash s"
  "admin_pin_hash (audio_feedback p s) = admin_pin_hash s"
  "led_pins (audio_feedback p s) = led_pins s"
  "status_led (audio_feedback p s) = status_led s"
  "current_step (audio_feedback p s) = current_step s"
  "unlocked (audio_feedback p s) = unlocked s"
  "system_locked (audio_feedback p s) = system_locked s"
  "failed_attempts (audio_feedback p s) = failed_attempts s"
  "unlock_calls (audio_feedback p s) = unlock_calls s"
  "lockout_threads (audio_feedback p s) = lockout_threads s"
  by (simp_all add: audio_feedback_def funpow_keeps split: pattern.splits)

lemma audio_feedback_clock [simp]:
  "clock (audio_feedback p s) = clock s + (if hardware_available s then audio_time p else 0)"
  by (simp add: audio_feedback_def audio_time_def eval_nat_numeral split: pattern.splits)

lemma flash_all_sel [simp]:
  "hardware_available (flash_all s) = hardware_available s"
  "correct_path (flash_all s) = correct_path s"
  "correct_pin_hash (flash_all s) = correct_pin_hash s"
  "admin_pin_hash (flash_all s) = admin_pin_hash s"
  "led_pins (flash_all s) = map (\<lambda>_. False) (led_pins s)"
  "status_led (flash_all s) = False"
  "buzzer (flash_all s) = buzzer s"
  "current_step (flash_all s) = current_step s"
  "unlocked (flash_all s) = unlocked s"
  "system_locked (flash_all s) = system_locked s"
  "failed_attempts (flash_all s) = failed_attempts s"
  "event_log (flash_all s) = event_log s"
  "clock (flash_all s) = clock s + 4/10"
  "unlock_calls (flash_all s) = unlock_calls s"
  "lockout_threads (flash_all s) = lockout_threads s"
  by (simp_all add: flash_all_def)

lemma flash_all_pow_clock: "clock ((flash_all ^^ n) s) = clock s + real n * (4/10)"
  by (induction n) (simp_all add: algebra_simps)

lemma flash_all_pow_Suc_leds: "led_pins ((flash_all ^^ Suc n) s) = map (\<lambda>_. False) (led_pins s)"
  by (induction n) simp_all

lemma flash_all_pow_leds: "0 < n \<Longrightarrow> led_pins ((flash_all ^^ n) s) = map (\<lambda>_. False) (led_pins s)"
  using flash_all_pow_Suc_leds [of "n - 1" s] by simp

lemma flash_all_pow_status: "0 < n \<Longrightarrow> status_led ((flash_all ^^ n) s) = False"
  by (cases n) simp_all

lemma start_lockout_thread_sel [simp]:
  "hardware_available (start_lockout_thread s) = hardware_available s"
  "correct_path (start_lockout_thread s) = correct_path s"
  "correct_pin_hash (start_lockout_thread s) = correct_pin_hash s"
  "admin_pin_hash (start_lockout_thread s) = admin_pin_hash s"
  "led_pins (start_lockout_thread s) = led_pins s"
  "status_led (start_lockout_thread s) = status_led s"
  "buzzer (start_lockout_thread s) = buzzer s"
  "current_step (start_lockout_thread s) = current_step s"
  "unlocked (start_lockout_thread s) = unlocked s"
  "system_locked (start_lockout_thread s) = system_locked s"
  "failed_attempts (start_lockout_thread s) = failed_attempts s"
  "clock (start_lockout_thread s) = clock s"
  "unlock_calls (start_lockout_thread s) = unlock_calls s"
  "lockout_threads (start_lockout_thread s) = lockout_threads s @ [clock s + lockout_duration]"
  by (simp_all add: start_lockout_thread_def)

lemma initiate_lockout_sel [simp]:
  "hardware_available (initiate_lockout s) = hardware_available s"
  "correct_path (initiate_lockout s) = correct_path s"
  "correct_pin_hash (initiate_lockout s) = correct_pin_hash s"
  "admin_pin_hash (initiate_lockout s) = admin_pin_hash s"
  "led_pins (initiate_lockout s) = map (\<lambda>_. False) (led_pins s)"
  "status_led (initiate_lockout s) = False"
  "current_step (initiate_lockout s) = current_step s"
  "unlocked (initiate_lockout s) = unlocked s"
  "system_locked (initiate_lockout s) = True"
  "failed_attempts (initiate_lockout s) = failed_attempts s"
  "clock (initiate_lockout s) = clock s + 4 + (if hardware_available s then audio_time BeepError else 0)"
  "unlock_calls (initiate_lockout s) = unlock_calls s"
  "lockout_threads (initiate_lockout s) = lockout_threads s @ [clock s + 4 + (if hardware_available s then audio_time BeepError else 0) + lockout_duration]"
  by (simp_all add: initiate_lockout_def funpow_keeps flash_all_pow_clock flash_all_pow_leds flash_all_pow_status audio_feedback_clock)

lemma lockout_timer_sel [simp]:
  "hardware_available (lockout_timer s) = hardware_available s"
  "correct_path (lockout_timer s) = correct_path s"
  "correct_pin_hash (lockout_timer s) = correct_pin_hash s"
  "admin_pin_hash (lockout_timer s) = admin_pin_hash s"
  "led_pins (lockout_timer s) = map (\<lambda>_. False) (led_pins s)"
  "status_led (lockout_timer s) = False"
  "buzzer (lockout_timer s) = buzzer s"
  "current_step (lockout_timer s) = 0"
  "unlocked (lockout_timer s) = False"
  "system_locked (lockout_timer s) = False"
  "failed_attempts (lockout_timer s) = 0"
  "clock (lockout_timer s) = clock s"
  "unlock_calls (lockout_timer s) = unlock_calls s"
  "lockout_threads (lockout_timer s) = lockout_threads s"
  by (simp_all add: lockout_timer_def)

lemma wait_release_clock [simp]: "clock (wait_release n s) = clock s + real n / 100"
  by (induction n arbitrary: s) (simp_all add: add_divide_distrib)

lemma wait_release_sel [simp]:
  "hardware_available (wait_release n s) = hardware_available s"
  "correct_path (wait_release n s) = correct_path s"
  "correct_pin_hash (wait_release n s) = correct_pin_hash s"
  "admin_pin_hash (wait_release n s) = admin_pin_hash s"
  "led_pins (wait_release n s) = led_pins s"
  "status_led (wait_release n s) = status_led s"
  "buzzer (wait_release n s) = buzzer s"
  "current_step (wait_release n s) = current_step s"
  "unlocked (wait_release n s) = unlocked s"
  "system_locked (wait_release n s) = system_locked s"
  "failed_attempts (wait_release n s) = failed_attempts s"
  "event_log (wait_release n s) = event_log s"
  "unlock_calls (wait_release n s) = unlock_calls s"
  "lockout_threads (wait_release n s) = lockout_threads s"
  by (induction n arbitrary: s; simp)+

lemma unlock_mechanism_sel [simp]:
  "hardware_available (unlock_mechanism s) = hardware_available s"
  "correct_path (unlock_mechanism s) = correct_path s"
  "correct_pin_hash (unlock_mechanism s) = correct_pin_hash s"
  "admin_pin_hash (unlock_mechanism s) = admin_pin_hash s"
  "led_pins (unlock_mechanism s) = led_pins s"
  "status_led (unlock_mechanism s) = status_led s"
  "current_step (unlock_mechanism s) = current_step s"
  "unlocked (unlock_mechanism s) = unlocked s"
  "system_locked (unlock_mechanism s) = system_locked s"
  "failed_attempts (unlock_mechanism s) = failed_attempts s"
  "clock (unlock_mechanism s) = clock s + (if hardware_available s then 35/10 + audio_time BeepSuccess else 0)"
  "unlock_calls (unlock_mechanism s) = unlock_calls s + 1"
  "lockout_threads (unlock_mechanism s) = lockout_threads s"
  by (simp_all add: unlock_mechanism_def Let_def audio_feedback_clock)

lemma flash_status_sel [simp]:
  "hardware_available (flash_status s) = hardware_available s"
  "correct_path (flash_status s) = correct_path s"
  "correct_pin_hash (flash_status s) = correct_pin_hash s"
  "admin_pin_hash (flash_status s) = admin_pin_hash s"
  "led_pins (flash_status s) = led_pins s"
  "status_led (flash_status s) = False"
  "buzzer (flash_status s) = buzzer s"
  "current_step (flash_status s) = current_step s"
  "unlocked (flash_status s) = unlocked s"
  "system_locked (flash_status s) = system_locked s"
  "failed_attempts (flash_status s) = failed_attempts s"
  "event_log (flash_status s) = event_log s"
  "clock (flash_status s) = clock s + 4/10"
  "unlock_calls (flash_status s) = unlock_calls s"
  "lockout_threads (flash_status s) = lockout_threads s"
  by (simp_all add: flash_status_def)

lemma flash_status_pow_clock: "clock ((flash_status ^^ n) s) = clock s + real n * (4/10)"
  by (induction n) (simp_all add: algebra_simps)

lemma flash_status_pow_status: "0 < n \<Longrightarrow> status_led ((flash_status ^^ n) s) = False"
  by (cases n) simp_all

lemma admin_mode_sel [simp]:
  "hardware_available (admin_mode s) = hardware_available s"
  "correct_path (admin_mode s) = correct_path s"
  "correct_pin_hash (admin_mode s) = correct_pin_hash s"
  "admin_pin_hash (admin_mode s) = admin_pin_hash s"
  "led_pins (admin_mode s) = led_pins s"
  "status_led (admin_mode s) = False"
  "current_step (admin_mode s) = current_step s"
  "unlocked (admin_mode s) = unlocked s"
  "system_locked (admin_mode s) = system_locked s"
  "failed_attempts (admin_mode s) = failed_attempts s"
  "clock (admin_mode s) = clock s + 2 + (if hardware_available s then audio_time BeepSuccess else 0)"
  "unlock_calls (admin_mode s) = unlock_calls s"
  "lockout_threads (admin_mode s) = lockout_threads s"
  by (simp_all add: admin_mode_def funpow_keeps flash_status_pow_clock flash_status_pow_status audio_feedback_clock)

lemma sleep_sleep [simp]: "sleep a (sleep b s) = sleep (b + a) s"
  by (simp add: sleep_def)

lemma sleep_zero [simp]: "sleep 0 s = s"
  by (simp add: sleep_def)

lemma wrong_button_sel [simp]:
  "hardware_available (wrong_button idx s) = hardware_available s"
  "correct_path (wrong_button idx s) = correct_path s"
  "correct_pin_hash (wrong_button idx s) = correct_pin_hash s"
  "admin_pin_hash (wrong_button idx s) = admin_pin_hash s"
  "led_pins (wrong_button idx s) = map (\<lambda>_. False) (led_pins s)"
  "status_led (wrong_button idx s) = False"
  "current_step (wrong_button idx s) = 0"
  "unlocked (wrong_button idx s) = False"
  "system_locked (wrong_button idx s) = (system_locked s \<or> failed_attempts s + 1 \<ge> max_attempts)"
  "failed_attempts (wrong_button idx s) = failed_attempts s + 1"
  "clock (wrong_button idx s) = clock s + (if hardware_available s then audio_time BeepError else 0) + (if failed_attempts s + 1 \<ge> max_attempts then 4 + (if hardware_available s then audio_time BeepError else 0) else 0)"
  "unlock_calls (wrong_button idx s) = unlock_calls s"
  "lockout_threads (wrong_button idx s) = (if failed_attempts s + 1 \<ge> max_attempts then lockout_threads s @ [clock s + (if hardware_available s then audio_time BeepError else 0) + 4 + (if hardware_available s then audio_time BeepError else 0) + lockout_duration] else lockout_threads s)"
  by (simp_all add: wrong_button_def Let_def audio_feedback_clock)

lemma correct_button_sel [simp]:
  "hardware_available (correct_button idx s) = hardware_available s"
  "correct_path (correct_button idx s) = correct_path s"
  "correct_pin_hash (correct_button idx s) = correct_pin_hash s"
  "admin_pin_hash (correct_button idx s) = admin_pin_hash s"
  "led_pins (correct_button idx s) = (led_pins s)[idx := True]"
  "status_led (correct_button idx s) = (status_led s \<or> current_step s + 1 \<ge> length (correct_path s))"
  "current_step (correct_button idx s) = current_step s + 1"
  "unlocked (correct_button idx s) = (unlocked s \<or> current_step s + 1 \<ge> length (correct_path s))"
  "system_locked (correct_button idx s) = system_locked s"
  "failed_attempts (correct_button idx s) = failed_attempts s"
  "clock (correct_button idx s) = clock s + (if current_step s + 1 \<ge> length (correct_path s) \<and> hardware_available s then audio_time BeepSuccess else 0)"
  "unlock_calls (correct_button idx s) = unlock_calls s"
  "lockout_threads (correct_button idx s) = lockout_threads s"
  by (simp_all add: correct_button_def Let_def audio_feedback_clock)

lemma press_confirmed_wrong:
  "current_step s < length (correct_path s) \<Longrightarrow> int idx \<noteq> correct_path s ! current_step s \<Longrightarrow>
   press_confirmed idx s =
     Ok (wrong_button idx (audio_feedback BeepSingle (log_event (ButtonPressed idx (current_step s)) s)))"
  by (simp add: press_confirmed_def Let_def)

lemma press_confirmed_correct:
  "current_step s < length (correct_path s) \<Longrightarrow> int idx = correct_path s ! current_step s \<Longrightarrow>
   idx < length (led_pins s) \<Longrightarrow>
   press_confirmed idx s =
     Ok (correct_button idx (audio_feedback BeepSingle (log_event (ButtonPressed idx (current_step s)) s)))"
  by (simp add: press_confirmed_def Let_def)

lemma press_confirmed_out_of_range:
  "\<not> current_step s < length (correct_path s) \<Longrightarrow>
   press_confirmed idx s =
     Exc IndexError (audio_feedback BeepSingle (log_event (ButtonPressed idx (current_step s)) s))"
  by (simp add: press_confirmed_def Let_def)

lemma alive_simps [simp]:
  "alive (Alive s) = Some s" "alive (Exited s) = None" "alive Blocked = None" "alive NotEnabled = None"
  by (simp_all add: alive_def)

lemma exited_simps [simp]:
  "exited (Alive s) = False" "exited (Exited s) = True" "exited Blocked = False" "exited NotEnabled = False"
  by (simp_all add: exited_def)

lemma initial_sel [simp]:
  "hardware_available (initial hw p h a) = hw"
  "correct_path (initial hw p h a) = p"
  "correct_pin_hash (initial hw p h a) = h"
  "admin_pin_hash (initial hw p h a) = a"
  "led_pins (initial hw p h a) = replicate 31 (\<not> hw)"
  "status_led (initial hw p h a) = False"
  "buzzer (initial hw p h a) = False"
  "current_step (initial hw p h a) = 0"
  "unlocked (initial hw p h a) = False"
  "system_locked (initial hw p h a) = False"
  "failed_attempts (initial hw p h a) = 0"
  "event_log (initial hw p h a) = []"
  "clock (initial hw p h a) = 0"
  "unlock_calls (initial hw p h a) = 0"
  "lockout_threads (initial hw p h a) = []"
  by (simp_all add: initial_def)

lemma upt_31: "[0..<31] = [0,1,2,3,4,5,6,7,8,9,10,11,12,13,14,15,16,17,18,19,20,21,22,23,24,25,26,27,28,29,30]"
  by code_simp

lemmas pressing_eval = pressing_def upt_31

lemma run_idle_locked:
  "system_locked s \<Longrightarrow> run H (replicate n (Iteration inp) @ es) s = run H es (sleep (real n / 10) s)"
proof (induction n arbitrary: s)
  case 0
  then show ?case by simp
next
  case (Suc n)
  then show ?case by (simp add: main_iteration_def add_divide_distrib)
qed

subsection \<open>Scanning the keypad\<close>

lemma agree_refl [simp]: "agree s s"
  by (simp add: agree_def)

lemma agree_trans: "agree s t \<Longrightarrow> agree t u \<Longrightarrow> agree s u"
  by (simp add: agree_def)

lemma agree_basic [simp]:
  "agree s (sleep d t) = agree s t"
  "agree s (log_event e t) = agree s t"
  "agree s (audio_feedback p t) = agree s t"
  "agree s (wait_release n t) = agree s t"
  by (simp_all add: agree_def)

lemma scan_rows_agree:
  "scan_rows rd col rows s = Ok (k, s') \<Longrightarrow> agree s s'"
proof (induction rows arbitrary: s)
  case Nil
  then show ?case by simp
next
  case (Cons row rows)
  show ?case
  proof (cases "rd row")
    case Released
    with Cons show ?thesis by simp
  next
    case Bounce
    with Cons.prems have "scan_rows rd col rows (sleep (5/100) s) = Ok (k, s')" by simp
    from Cons.IH [OF this] show ?thesis by (simp add: agree_def)
  next
    case (Pressed n)
    with Cons.prems show ?thesis by auto
  next
    case Held
    with Cons.prems show ?thesis by simp
  qed
qed

lemma scan_cols_agree:
  "scan_cols m cols s = Ok (k, s') \<Longrightarrow> agree s s'"
proof (induction cols arbitrary: s)
  case Nil
  then show ?case by simp
next
  case (Cons col cols)
  show ?case
  proof (cases "scan_rows (m col) col [0, 1, 2] (sleep (1/1000) s)")
    case (Ok p)
    obtain k1 s1 where p: "p = (k1, s1)" by (cases p)
    from scan_rows_agree [of "m col" col "[0, 1, 2]" "sleep (1/1000) s" k1 s1] Ok p
    have a: "agree s s1"
      by (simp add: agree_def)
    show ?thesis
    proof (cases k1)
      case None
      with Cons.prems Ok p have "scan_cols m cols s1 = Ok (k, s')" by simp
      from agree_trans [OF a Cons.IH [OF this]] show ?thesis .
    next
      case (Some key)
      with Cons.prems Ok p a show ?thesis by simp
    qed
  next
    case (Exc e t)
    with Cons.prems show ?thesis by simp
  next
    case NoReturn
    with Cons.prems show ?thesis by simp
  qed
qed

lemma scan_keypad_agree: "scan_keypad m s = Ok (k, s') \<Longrightarrow> agree s s'"
  unfolding scan_keypad_def by (rule scan_cols_agree)

lemma scan_keypad_no_key [simp]: "scan_keypad no_key s = Ok (None, sleep (3/1000) s)"
  by (simp add: scan_keypad_def no_key_def)


lemma key_1: "scan_keypad (key_at 0 0) s = Ok (Some CHR ''1'', audio_feedback BeepSingle (sleep (51/1000) s))"
  by (simp add: scan_keypad_def key_at_def keypad_keys_def)

lemma key_2: "scan_keypad (key_at 1 0) s = Ok (Some CHR ''2'', audio_feedback BeepSingle (sleep (52/1000) s))"
  by (simp add: scan_keypad_def key_at_def keypad_keys_def)

lemma key_3: "scan_keypad (key_at 2 0) s = Ok (Some CHR ''3'', audio_feedback BeepSingle (sleep (53/1000) s))"
  by (simp add: scan_keypad_def key_at_def keypad_keys_def)

lemma key_4: "scan_keypad (key_at 0 1) s = Ok (Some CHR ''4'', audio_feedback BeepSingle (sleep (51/1000) s))"
  by (simp add: scan_keypad_def key_at_def keypad_keys_def)

lemma key_5: "scan_keypad (key_at 1 1) s = Ok (Some CHR ''5'', audio_feedback BeepSingle (sleep (52/1000) s))"
  by (simp add: scan_keypad_def key_at_def keypad_keys_def)

lemma key_9: "scan_keypad (key_at 2 2) s = Ok (Some CHR ''9'', audio_feedback BeepSingle (sleep (53/1000) s))"
  by (simp add: scan_keypad_def key_at_def keypad_keys_def)

lemma key_4_down:
  "scan_keypad (key_down 0 1 n) s
     = Ok (Some CHR ''4'', audio_feedback BeepSingle (wait_release n (sleep (51/1000) s)))"
  by (simp add: scan_keypad_def key_down_def keypad_keys_def)

lemma returned_simps [simp]:
  "returned (Ok x) = Some x" "returned (Exc e s) = None" "returned NoReturn = None"
  by (simp_all add: returned_def)


lemma pin_complete_primary:
  "hash_pin H pin = correct_pin_hash s \<Longrightarrow>
   pin_complete H pin s = (True, unlock_mechanism (log_event PinOk s))"
  by (simp add: pin_complete_def)

lemma pin_complete_admin:
  "hash_pin H pin \<noteq> correct_pin_hash s \<Longrightarrow> hash_pin H pin = admin_pin_hash s \<Longrightarrow>
   pin_complete H pin s = (True, admin_mode (log_event AdminPinOk s))"
  by (simp add: pin_complete_def)

lemma pin_complete_wrong:
  "hash_pin H pin \<noteq> correct_pin_hash s \<Longrightarrow> hash_pin H pin \<noteq> admin_pin_hash s \<Longrightarrow>
   \<exists>s'. pin_complete H pin s = (False, s') \<and>
        failed_attempts s' = failed_attempts s + 1 \<and>
        unlock_calls s' = unlock_calls s \<and>
        system_locked s' = (system_locked s \<or> failed_attempts s + 1 \<ge> max_attempts) \<and>
        current_step s' = current_step s \<and> unlocked s' = unlocked s \<and>
        correct_path s' = correct_path s"
  by (simp add: pin_complete_def Let_def)

subsection \<open>The PIN entry loop\<close>

lemma pin_loop_timeout:
  "pin_timeout < clock s - start_time \<Longrightarrow>
   pin_loop H entered_pin start_time (m # ms) s
     = Ok (False, audio_feedback BeepError (log_event PinTimeout s))"
  by simp

lemma pin_loop_idle_step:
  "\<not> pin_timeout < clock s - start_time \<Longrightarrow>
   pin_loop H entered_pin start_time (no_key # ms) s
     = pin_loop H entered_pin start_time ms (sleep (103/1000) s)"
  by simp

lemma pin_loop_idle:
  "pin_timeout - (clock s - start_time) < real n * (103/1000) \<Longrightarrow>
   \<exists>s'. pin_loop H entered_pin start_time (replicate (Suc n) no_key) s = Ok (False, s') \<and>
        agree s s'"
proof (induction n arbitrary: s)
  case 0
  then show ?case by simp
next
  case (Suc n)
  show ?case
  proof (cases "pin_timeout < clock s - start_time")
    case True
    then show ?thesis by simp
  next
    case False
    let ?s1 = "sleep (103/1000) s"
    have step: "pin_loop H entered_pin start_time (replicate (Suc (Suc n)) no_key) s
                  = pin_loop H entered_pin start_time (replicate (Suc n) no_key) ?s1"
      using False by (subst replicate_Suc) (rule pin_loop_idle_step)
    from Suc.prems have "pin_timeout - (clock ?s1 - start_time) < real n * (103/1000)"
      by (simp add: algebra_simps)
    from Suc.IH [OF this] obtain s' where
      r: "pin_loop H entered_pin start_time (replicate (Suc n) no_key) ?s1 = Ok (False, s')"
      and a: "agree ?s1 s'" by blast
    from a have "agree s s'" by (simp add: agree_def)
    with r step show ?thesis by (simp only:) blast
  qed
qed

subsection \<open>The failure counter and the lock never go back in the main thread\<close>

lemma press_confirmed_failed:
  "press_confirmed idx s = Ok s' \<Longrightarrow>
   failed_attempts s' = failed_attempts s + (if int idx = correct_path s ! current_step s then 0 else 1)"
  by (auto simp: press_confirmed_def Let_def split: if_splits)

lemma press_confirmed_locked:
  "press_confirmed idx s = Ok s' \<Longrightarrow> system_locked s \<Longrightarrow> system_locked s'"
  by (auto simp: press_confirmed_def Let_def split: if_splits)

lemma scan_buttons_mono:
  "scan_buttons i rs s = Ok s' \<Longrightarrow>
   failed_attempts s \<le> failed_attempts s' \<and> (system_locked s \<longrightarrow> system_locked s')"
proof (induction rs arbitrary: i s)
  case Nil
  then show ?case by simp
next
  case (Cons r rs)
  show ?case
  proof (cases "31 \<le> i")
    case True
    with Cons.prems show ?thesis by simp
  next
    case False
    show ?thesis
    proof (cases r)
      case Released
      with False Cons.prems have "scan_buttons (i + 1) rs s = Ok s'" by simp
      from Cons.IH [OF this] show ?thesis .
    next
      case Bounce
      with False Cons.prems have "scan_buttons (i + 1) rs (sleep (5/100) s) = Ok s'" by simp
      from Cons.IH [OF this] show ?thesis by simp
    next
      case (Pressed n)
      with False Cons.prems obtain s1 where
        p: "press_confirmed i (sleep (5/100) s) = Ok s1"
        and r: "scan_buttons (i + 1) rs (wait_release n s1) = Ok s'"
        by (auto split: res.splits)
      from press_confirmed_failed [OF p] press_confirmed_locked [OF p] Cons.IH [OF r]
      show ?thesis by (auto split: if_splits)
    next
      case Held
      with False Cons.prems show ?thesis by (simp split: res.splits)
    qed
  qed
qed

lemma pin_complete_failed:
  "pin_complete H pin s = (ok, s') \<Longrightarrow>
   failed_attempts s' = failed_attempts s + (if ok then 0 else 1) \<and>
   (system_locked s \<longrightarrow> system_locked s')"
  by (auto simp: pin_complete_def Let_def split: if_splits)

lemma pin_loop_mono:
  "pin_loop H entered_pin start_time ms s = Ok (ok, s') \<Longrightarrow>
   failed_attempts s \<le> failed_attempts s' \<and>
   (ok \<longrightarrow> failed_attempts s' = failed_attempts s) \<and>
   (system_locked s \<longrightarrow> system_locked s')"
proof (induction ms arbitrary: entered_pin start_time s)
  case Nil
  then show ?case by simp
next
  case (Cons m ms)
  show ?case
  proof (cases "pin_timeout < clock s - start_time")
    case True
    with Cons.prems show ?thesis by auto
  next
    case False
    show ?thesis
    proof (cases "scan_keypad m s")
      case (Ok p)
      obtain k s1 where p: "p = (k, s1)" by (cases p)
      from scan_keypad_agree Ok p have a: "agree s s1" by blast
      show ?thesis
      proof (cases k)
        case None
        with False Ok p Cons.prems
        have "pin_loop H entered_pin start_time ms (sleep (1/10) s1) = Ok (ok, s')" by simp
        from Cons.IH [OF this] a show ?thesis by (simp add: agree_def)
      next
        case (Some key)
        show ?thesis
        proof (cases "length (entered_pin @ [key]) = 4")
          case True
          with False Ok p Some Cons.prems
          have "pin_complete H (entered_pin @ [key]) (log_event (KeyPressed key) s1) = (ok, s')"
            by simp
          from pin_complete_failed [OF this] a show ?thesis by (auto simp: agree_def)
        next
          case n4: False
          with False Ok p Some Cons.prems
          have "pin_loop H (entered_pin @ [key]) (clock s1) ms
                  (sleep (1/10) (log_event (KeyPressed key) s1)) = Ok (ok, s')"
            by simp
          from Cons.IH [OF this] a show ?thesis by (simp add: agree_def)
        qed
      qed
    next
      case (Exc e t)
      with False Cons.prems show ?thesis by simp
    next
      case NoReturn
      with False Cons.prems show ?thesis by simp
    qed
  qed
qed

lemma main_iteration_mono:
  "main_iteration H inp s = Ok s' \<Longrightarrow>
   failed_attempts s \<le> failed_attempts s' \<and> (system_locked s \<longrightarrow> system_locked s')"
proof (cases "system_locked s")
  case True
  then show "main_iteration H inp s = Ok s' \<Longrightarrow> ?thesis"
    by (auto simp: main_iteration_def)
next
  case False
  assume r: "main_iteration H inp s = Ok s'"
  from r False obtain s1 where c: "scan_buttons 0 (buttons inp) s = Ok s1"
    by (auto simp: main_iteration_def check_tree_buttons_def split: res.splits)
  from scan_buttons_mono [OF c] have m1: "failed_attempts s \<le> failed_attempts s1" by simp
  show ?thesis
  proof (cases "unlocked s1")
    case u: False
    with r False c have "s' = sleep (1/10) s1"
      by (auto simp: main_iteration_def check_tree_buttons_def)
    with m1 False show ?thesis by simp
  next
    case u: True
    with r False c obtain ok s2 where
      h: "handle_pin_entry H (keypad inp) s1 = Ok (ok, s2)"
      and e: "s' = sleep (1/10) (if ok then reset_system (sleep 5 s2) else reset_system s2)"
      by (auto simp: main_iteration_def check_tree_buttons_def pin_phase_def split: res.splits)
    from h have "pin_loop H [] (clock s1) (keypad inp) (log_event PinEntryInitiated s1) = Ok (ok, s2)"
      by (simp add: handle_pin_entry_def)
    from pin_loop_mono [OF this] have "failed_attempts s1 \<le> failed_attempts s2" by simp
    with m1 e False show ?thesis by simp
  qed
qed

lemma run_without_expiry_mono:
  "TimerExpires \<notin> set es \<Longrightarrow> run H es s = Alive s' \<Longrightarrow>
   failed_attempts s \<le> failed_attempts s' \<and> (system_locked s \<longrightarrow> system_locked s')"
proof (induction es arbitrary: s)
  case Nil
  then show ?case by simp
next
  case (Cons e es)
  from Cons.prems(1) obtain inp where e: "e = Iteration inp" by (cases e) auto
  with Cons.prems(2) obtain s1 where
    m: "main_iteration H inp s = Ok s1" and r: "run H es s1 = Alive s'"
    by (auto split: res.splits)
  from Cons.prems(1) have "TimerExpires \<notin> set es" by simp
  from Cons.IH [OF this r] main_iteration_mono [OF m] show ?case by auto
qed

text \<open>
  While the lock is on at the start of an iteration, the iteration polls nothing and only
  sleeps; and the failure that brings the counter to \<open>max_attempts\<close> turns the lock on.
\<close>

lemma main_iteration_locked:
  "system_locked s \<Longrightarrow> main_iteration H inp s = Ok (sleep (1/10) s)"
  by (simp add: main_iteration_def)

lemma third_wrong_button_locks:
  "max_attempts \<le> failed_attempts s + 1 \<Longrightarrow> system_locked (wrong_button idx s)"
  by simp

lemma third_wrong_pin_locks:
  "hash_pin H pin \<noteq> correct_pin_hash s \<Longrightarrow> hash_pin H pin \<noteq> admin_pin_hash s \<Longrightarrow>
   max_attempts \<le> failed_attempts s + 1 \<Longrightarrow> system_locked (snd (pin_complete H pin s))"
  using pin_complete_wrong [of H pin s] by auto

subsection \<open>The clock only moves forward, and how long a lock lasts\<close>

lemma audio_feedback_clock_mono: "clock s \<le> clock (audio_feedback p s)"
  by (simp add: audio_time_def split: pattern.splits)

lemma press_confirmed_clock:
  "press_confirmed idx s = Ok s' \<Longrightarrow> clock s \<le> clock s'"
  by (auto simp: press_confirmed_def Let_def audio_time_def split: if_splits pattern.splits)

lemma scan_buttons_clock:
  "scan_buttons i rs s = Ok s' \<Longrightarrow> clock s \<le> clock s'"
proof (induction rs arbitrary: i s)
  case Nil
  then show ?case by simp
next
  case (Cons r rs)
  show ?case
  proof (cases "31 \<le> i")
    case True
    with Cons.prems show ?thesis by simp
  next
    case False
    show ?thesis
    proof (cases r)
      case Released
      with False Cons.prems have "scan_buttons (i + 1) rs s = Ok s'" by simp
      from Cons.IH [OF this] show ?thesis .
    next
      case Bounce
      with False Cons.prems have "scan_buttons (i + 1) rs (sleep (5/100) s) = Ok s'" by simp
      from Cons.IH [OF this] show ?thesis by simp
    next
      case (Pressed n)
      with False Cons.prems obtain s1 where
        p: "press_confirmed i (sleep (5/100) s) = Ok s1"
        and r: "scan_buttons (i + 1) rs (wait_release n s1) = Ok s'"
        by (auto split: res.splits)
      from press_confirmed_clock [OF p] Cons.IH [OF r] show ?thesis by simp
    next
      case Held
      with False Cons.prems show ?thesis by (simp split: res.splits)
    qed
  qed
qed

lemma scan_rows_clock:
  "scan_rows rd col rows s = Ok (k, s') \<Longrightarrow> clock s \<le> clock s'"
proof (induction rows arbitrary: s)
  case Nil
  then show ?case by simp
next
  case (Cons row rows)
  show ?case
  proof (cases "rd row")
    case Released
    with Cons show ?thesis by simp
  next
    case Bounce
    with Cons.prems have "scan_rows rd col rows (sleep (5/100) s) = Ok (k, s')" by simp
    from Cons.IH [OF this] show ?thesis by simp
  next
    case (Pressed n)
    with Cons.prems show ?thesis by (auto simp: audio_time_def)
  next
    case Held
    with Cons.prems show ?thesis by simp
  qed
qed

lemma scan_cols_clock:
  "scan_cols m cols s = Ok (k, s') \<Longrightarrow> clock s \<le> clock s'"
proof (induction cols arbitrary: s)
  case Nil
  then show ?case by simp
next
  case (Cons col cols)
  show ?case
  proof (cases "scan_rows (m col) col [0, 1, 2] (sleep (1/1000) s)")
    case (Ok p)
    obtain k1 s1 where p: "p = (k1, s1)" by (cases p)
    from scan_rows_clock [of "m col" col "[0, 1, 2]" "sleep (1/1000) s" k1 s1] Ok p
    have a: "clock s \<le> clock s1" by simp
    show ?thesis
    proof (cases k1)
      case None
      with Cons.prems Ok p have "scan_cols m cols s1 = Ok (k, s')" by simp
      from Cons.IH [OF this] a show ?thesis by simp
    next
      case (Some key)
      with Cons.prems Ok p a show ?thesis by simp
    qed
  next
    case (Exc e t)
    with Cons.prems show ?thesis by simp
  next
    case NoReturn
    with Cons.prems show ?thesis by simp
  qed
qed

lemma scan_keypad_clock: "scan_keypad m s = Ok (k, s') \<Longrightarrow> clock s \<le> clock s'"
  unfolding scan_keypad_def by (rule scan_cols_clock)

lemma pin_complete_clock: "pin_complete H pin s = (ok, s') \<Longrightarrow> clock s \<le> clock s'"
  by (auto simp: pin_complete_def Let_def audio_time_def split: if_splits)

lemma pin_loop_clock:
  "pin_loop H entered_pin start_time ms s = Ok (ok, s') \<Longrightarrow> clock s \<le> clock s'"
proof (induction ms arbitrary: entered_pin start_time s)
  case Nil
  then show ?case by simp
next
  case (Cons m ms)
  show ?case
  proof (cases "pin_timeout < clock s - start_time")
    case True
    with Cons.prems show ?thesis by (auto simp: audio_time_def)
  next
    case False
    show ?thesis
    proof (cases "scan_keypad m s")
      case (Ok p)
      obtain k s1 where p: "p = (k, s1)" by (cases p)
      from scan_keypad_clock Ok p have a: "clock s \<le> clock s1" by blast
      show ?thesis
      proof (cases k)
        case None
        with False Ok p Cons.prems
        have "pin_loop H entered_pin start_time ms (sleep (1/10) s1) = Ok (ok, s')" by simp
        from Cons.IH [OF this] a show ?thesis by simp
      next
        case (Some key)
        show ?thesis
        proof (cases "length (entered_pin @ [key]) = 4")
          case True
          with False Ok p Some Cons.prems
          have "pin_complete H (entered_pin @ [key]) (log_event (KeyPressed key) s1) = (ok, s')"
            by simp
          from pin_complete_clock [OF this] a show ?thesis by simp
        next
          case n4: False
          with False Ok p Some Cons.prems
          have "pin_loop H (entered_pin @ [key]) (clock s1) ms
                  (sleep (1/10) (log_event (KeyPressed key) s1)) = Ok (ok, s')"
            by simp
          from Cons.IH [OF this] a show ?thesis by simp
        qed
      qed
    next
      case (Exc e t)
      with False Cons.prems show ?thesis by simp
    next
      case NoReturn
      with False Cons.prems show ?thesis by simp
    qed
  qed
qed

lemma main_iteration_clock:
  "main_iteration H inp s = Ok s' \<Longrightarrow> clock s \<le> clock s'"
proof (cases "system_locked s")
  case True
  then show "main_iteration H inp s = Ok s' \<Longrightarrow> ?thesis"
    by (auto simp: main_iteration_def)
next
  case False
  assume r: "main_iteration H inp s = Ok s'"
  from r False obtain s1 where c: "scan_buttons 0 (buttons inp) s = Ok s1"
    by (auto simp: main_iteration_def check_tree_buttons_def split: res.splits)
  from scan_buttons_clock [OF c] have m1: "clock s \<le> clock s1" .
  show ?thesis
  proof (cases "unlocked s1")
    case u: False
    with r False c have "s' = sleep (1/10) s1"
      by (auto simp: main_iteration_def check_tree_buttons_def)
    with m1 show ?thesis by simp
  next
    case u: True
    with r False c obtain ok s2 where
      h: "handle_pin_entry H (keypad inp) s1 = Ok (ok, s2)"
      and e: "s' = sleep (1/10) (if ok then reset_system (sleep 5 s2) else reset_system s2)"
      by (auto simp: main_iteration_def check_tree_buttons_def pin_phase_def split: res.splits)
    from h have "pin_loop H [] (clock s1) (keypad inp) (log_event PinEntryInitiated s1) = Ok (ok, s2)"
      by (simp add: handle_pin_entry_def)
    from pin_loop_clock [OF this] have "clock s1 \<le> clock s2" by simp
    with m1 e show ?thesis by simp
  qed
qed

lemma timer_expires_clock: "timer_expires s = Some s' \<Longrightarrow> clock s' = clock s"
  by (auto simp: timer_expires_def split: list.splits if_splits)

lemma run_clock: "run H es s = Alive s' \<Longrightarrow> clock s \<le> clock s'"
proof (induction es arbitrary: s)
  case Nil
  then show ?case by simp
next
  case (Cons e es)
  show ?case
  proof (cases e)
    case (Iteration inp)
    with Cons.prems obtain s1 where
      m: "main_iteration H inp s = Ok s1" and r: "run H es s1 = Alive s'"
      by (auto split: res.splits)
    from main_iteration_clock [OF m] Cons.IH [OF r] show ?thesis by simp
  next
    case TimerExpires
    with Cons.prems obtain s1 where
      t: "timer_expires s = Some s1" and r: "run H es s1 = Alive s'"
      by (auto split: option.splits)
    from timer_expires_clock [OF t] Cons.IH [OF r] show ?thesis by simp
  qed
qed

text \<open>
  A lock lasts at least until the first sleeping cooldown thread is due: nothing but the wake-up
  of such a thread clears \<open>system_locked\<close>. So a lockout that starts when no older cooldown
  thread is asleep lasts the full \<open>lockout_duration\<close>, counted from the start of its thread.
\<close>

lemma lock_lasts_until_due:
  "system_locked s \<Longrightarrow> \<forall>w \<in> set (lockout_threads s). due \<le> w \<Longrightarrow>
   run H es s = Alive s' \<Longrightarrow> clock s' < due \<Longrightarrow> system_locked s'"
proof (induction es arbitrary: s)
  case Nil
  then show ?case by simp
next
  case (Cons e es)
  show ?case
  proof (cases e)
    case (Iteration inp)
    with Cons.prems(1,3) have r: "run H es (sleep (1/10) s) = Alive s'"
      by (simp add: main_iteration_locked)
    from Cons.IH [OF _ _ r Cons.prems(4)] Cons.prems(1,2) show ?thesis by simp
  next
    case TimerExpires
    with Cons.prems(3) obtain s1 where
      t: "timer_expires s = Some s1" and r: "run H es s1 = Alive s'"
      by (auto split: option.splits)
    from t obtain w ws where "lockout_threads s = w # ws" "w \<le> clock s"
      by (auto simp: timer_expires_def split: list.splits if_splits)
    with Cons.prems(2) have "due \<le> clock s" by auto
    with timer_expires_clock [OF t] run_clock [OF r] Cons.prems(4) show ?thesis by simp
  qed
qed

lemma lockout_from_rest_lasts:
  "lockout_threads s = [] \<Longrightarrow> run H es (initiate_lockout s) = Alive s' \<Longrightarrow>
   clock s' < clock (initiate_lockout s) + lockout_duration \<Longrightarrow> system_locked s'"
  using lock_lasts_until_due [of "initiate_lockout s" "clock (initiate_lockout s) + lockout_duration" H es s']
  by simp

subsection \<open>Idle iterations\<close>

lemma run_idle:
  "system_locked s \<or> \<not> unlocked s \<Longrightarrow>
   run H (replicate n idle @ es) s = run H es (sleep (real n / 10) s)"
proof (induction n arbitrary: s)
  case 0
  then show ?case by simp
next
  case (Suc n)
  have "main_iteration H \<lparr>buttons = pressing [], keypad = []\<rparr> s = Ok (sleep (1/10) s)"
    using Suc.prems by (auto simp: main_iteration_def check_tree_buttons_def pressing_eval)
  with Suc show ?case by (simp add: idle_def press_def add_divide_distrib)
qed

text \<open>The rules that evaluate a concrete run, and those that evaluate a concrete PIN entry.\<close>

lemmas trace_simps = main_iteration_def press_def check_tree_buttons_def pressing_eval
  default_config_def box_def press_confirmed_wrong press_confirmed_correct
  press_confirmed_out_of_range max_attempts_def lockout_duration_def timer_expires_def
  audio_time_def run_idle double_lockout_def

lemmas keypad_simps = scan_keypad_def key_at_def keypad_keys_def hash_pin_def plain_digest_def
  salt_def pin_phase_def handle_pin_entry_def pin_complete_def pin_timeout_def enter_1234_def

section \<open>The claims\<close>

subsection \<open>C1: when the failure counter changes\<close>

text \<open>
  Claim C1 says that \<open>failed_attempts\<close> is incremented by wrong buttons and wrong 4-digit PINs
  and is reset to zero exactly when the lockout cooldown expires or when an unlock succeeds, so
  that it is zero after a successful unlock. The code never resets it on success:
  \<^verbatim>\<open>reset_system\<close>, which \<^verbatim>\<open>main_loop\<close> calls after a successful PIN entry, leaves the counter
  alone. In the run below one wrong button is followed by the whole tree sequence and the
  primary PIN: the actuator is triggered once and the counter is still 1.
\<close>

theorem successful_unlock_keeps_failure_count:
  "map_option unlock_calls
     (alive (run plain_digest
               [press [2], press [0], press [1], press [3], press [7],
                Iteration \<lparr>buttons = pressing [15], keypad = enter_1234\<rparr>]
               box)) = Some 1 \<and>
   map_option failed_attempts
     (alive (run plain_digest
               [press [2], press [0], press [1], press [3], press [7],
                Iteration \<lparr>buttons = pressing [15], keypad = enter_1234\<rparr>]
               box)) = Some 1"
  by (simp add: trace_simps keypad_simps)

text \<open>
  Claim C1, amended. \<open>failed_attempts\<close> is incremented by one by every wrong button and by
  every wrong 4-digit PIN and by nothing else; it is set to zero when a cooldown thread wakes
  up, and at no other point: no run of the main loop without such a wake-up ever lowers it;
  in particular a successful PIN entry, with the reset that follows it, leaves it unchanged.
\<close>

theorem failed_attempts_accounting:
  "(press_confirmed idx s = Ok s' \<longrightarrow>
      failed_attempts s' =
        failed_attempts s + (if int idx = correct_path s ! current_step s then 0 else 1)) \<and>
   (pin_complete H pin t = (ok, t') \<longrightarrow>
      failed_attempts t' = failed_attempts t + (if ok then 0 else 1)) \<and>
   (timer_expires u = Some u' \<longrightarrow> failed_attempts u' = 0) \<and>
   (TimerExpires \<notin> set es \<and> run H es v = Alive v' \<longrightarrow>
      failed_attempts v \<le> failed_attempts v') \<and>
   (handle_pin_entry H ms w = Ok (True, w') \<longrightarrow>
      failed_attempts (reset_system (sleep 5 w')) = failed_attempts w)"
proof -
  have a: "timer_expires u = Some u' \<Longrightarrow> failed_attempts u' = 0"
    by (auto simp: timer_expires_def split: list.splits if_splits)
  have b: "handle_pin_entry H ms w = Ok (True, w') \<Longrightarrow>
           failed_attempts (reset_system (sleep 5 w')) = failed_attempts w"
    using pin_loop_mono [of H "[]" "clock w" ms "log_event PinEntryInitiated w" True w']
    by (simp add: handle_pin_entry_def)
  show ?thesis
    using a b press_confirmed_failed [of idx s s'] pin_complete_failed [of H pin t ok t']
      run_without_expiry_mono [of es H v v']
    by blast
qed

theorem failed_attempts_accounting_witness:
  "(\<exists>s'. press_confirmed 2 box = Ok s' \<and> failed_attempts s' = failed_attempts box + 1) \<and>
   (\<exists>t'. pin_complete plain_digest ''1235'' box = (False, t') \<and>
         failed_attempts t' = failed_attempts box + 1) \<and>
   (\<exists>u'. timer_expires (sleep 400 (initiate_lockout box)) = Some u' \<and> failed_attempts u' = 0) \<and>
   TimerExpires \<notin> set [press [2], press [0]] \<and>
   (\<exists>v'. run plain_digest [press [2], press [0]] box = Alive v' \<and>
         failed_attempts box \<le> failed_attempts v') \<and>
   (\<exists>w'. handle_pin_entry plain_digest enter_1234 box = Ok (True, w') \<and>
         failed_attempts (reset_system (sleep 5 w')) = failed_attempts box)"
proof -
  obtain s' where s: "press_confirmed 2 box = Ok s'"
    by (simp add: trace_simps)
  obtain t' where t: "pin_complete plain_digest ''1235'' box = (False, t')"
    by (simp add: trace_simps keypad_simps Let_def)
  obtain u' where u: "timer_expires (sleep 400 (initiate_lockout box)) = Some u'"
    by (simp add: trace_simps)
  obtain v' where v: "run plain_digest [press [2], press [0]] box = Alive v'"
    by (simp add: trace_simps)
  have e: "TimerExpires \<notin> set [press [2], press [0]]"
    by (simp add: press_def)
  obtain w' where w: "handle_pin_entry plain_digest enter_1234 box = Ok (True, w')"
    by (simp add: trace_simps keypad_simps)
  have i: "int 2 \<noteq> correct_path box ! current_step box"
    by (simp add: trace_simps)
  show ?thesis
    using s t u v e w i
      failed_attempts_accounting [of 2 box s' plain_digest "''1235''" box False t'
        "sleep 400 (initiate_lockout box)" u' "[press [2], press [0]]" box v' enter_1234 box w']
    by auto
qed

subsection \<open>C2: a further button in the pass that completes the sequence\<close>

text \<open>
  Claim C2. Whenever \<^verbatim>\<open>check_tree_buttons\<close> processes a confirmed press, \<open>current_step\<close> is a
  valid index into the path, also for a further button pressed in the scan pass that has just
  completed the sequence, and no input mismatch ever terminates the process.

  The code breaks this. The \<^verbatim>\<open>for\<close> loop goes on after the last correct button, with
  \<open>current_step = len(correct_path)\<close>; the next button that is down makes
  \<^verbatim>\<open>self.correct_path[self.current_step]\<close> raise \<^verbatim>\<open>IndexError\<close>, which \<^verbatim>\<open>main_loop\<close> catches only to
  clean up and return. Below, buttons 0, 1, 3 and 7 are pressed in four passes; with button 15
  alone in the fifth pass and the PIN typed the process lives on, with buttons 15 and 16 both
  down in the fifth pass it ends.
\<close>

theorem press_after_completion_ends_process:
  "map_option current_step
     (alive (run plain_digest [press [0], press [1], press [3], press [7]] box)) = Some 4 \<and>
   map_option unlock_calls
     (alive (main_loop plain_digest
               [press [0], press [1], press [3], press [7],
                Iteration \<lparr>buttons = pressing [15], keypad = enter_1234\<rparr>]
               box)) = Some 1 \<and>
   exited (main_loop plain_digest
             [press [0], press [1], press [3], press [7],
              Iteration \<lparr>buttons = pressing [15, 16], keypad = enter_1234\<rparr>]
             box)"
  by (simp add: trace_simps keypad_simps main_loop_def)

subsection \<open>C3: how long a lockout lasts\<close>

text \<open>
  Claim C3. From \<open>failed_attempts = 0\<close> and \<open>locked = false\<close>, any three consecutive failures
  (wrong buttons or wrong PINs, in any mix) set \<open>locked\<close>, which then stays true for the full
  300 s cooldown and becomes false only when the cooldown task completes; no other operation
  clears it, whatever input is attempted during the cooldown.

  The code breaks the second half when a cooldown thread of an earlier lockout is still
  asleep. After \<open>double_lockout\<close> the counter is 0 and the lock is off (clock 307.7), but the
  second cooldown thread of that pass is still due at 313.4. Three wrong buttons in three
  passes set the lock again during the third pass, after clock 309.8; its own cooldown thread
  is due at 615.55. When the old thread wakes up, at clock 315.65, the lock is off again: it
  lasted less than six seconds. (Without an older thread asleep the lock does last:
  \<open>lockout_from_rest_lasts\<close>.)
\<close>

theorem older_cooldown_clears_new_lockout:
  "map_option failed_attempts (alive (run plain_digest double_lockout box)) = Some 0 \<and>
   map_option system_locked (alive (run plain_digest double_lockout box)) = Some False \<and>
   map_option clock (alive (run plain_digest double_lockout box)) = Some (3077/10) \<and>
   map_option lockout_threads (alive (run plain_digest double_lockout box)) = Some [3134/10] \<and>
   map_option system_locked
     (alive (run plain_digest (double_lockout @ [press [1], press [2]]) box)) = Some False \<and>
   map_option clock
     (alive (run plain_digest (double_lockout @ [press [1], press [2]]) box)) = Some (3098/10) \<and>
   map_option system_locked
     (alive (run plain_digest (double_lockout @ [press [1], press [2], press [3]]) box))
     = Some True \<and>
   map_option lockout_threads
     (alive (run plain_digest (double_lockout @ [press [1], press [2], press [3]]) box))
     = Some [3134/10, 61555/100] \<and>
   map_option system_locked
     (alive (run plain_digest
               (double_lockout @ [press [1], press [2], press [3], TimerExpires]) box))
     = Some False \<and>
   map_option clock
     (alive (run plain_digest
               (double_lockout @ [press [1], press [2], press [3], TimerExpires]) box))
     = Some (31565/100) \<and>
   map_option lockout_threads
     (alive (run plain_digest
               (double_lockout @ [press [1], press [2], press [3], TimerExpires]) box))
     = Some [61555/100]"
  by (simp add: trace_simps)

subsection \<open>C4: no input is processed while locked\<close>

text \<open>
  Claim C4. In every state in which \<open>locked\<close> is true no button and no keypad input is
  processed or polled, and \<open>failed_attempts\<close> is neither incremented nor read as a trigger of a
  lockout.

  \<^verbatim>\<open>main_loop\<close> and \<^verbatim>\<open>check_tree_buttons\<close> test \<open>system_locked\<close> before a scan pass starts, but not
  inside the \<^verbatim>\<open>for\<close> loop. Below, two wrong presses of button 2 are followed by a pass. With
  button 2 alone down in that pass the third failure locks the system, with the counter at 3
  and one cooldown thread. With buttons 2 and 4 down, button 4 is still polled and processed
  after the lock has been set: the counter goes to 4 and \<^verbatim>\<open>initiate_lockout\<close> runs again.
\<close>

theorem scan_continues_after_lockout:
  "map_option system_locked
     (alive (run plain_digest [press [2], press [2], press [2]] box)) = Some True \<and>
   map_option failed_attempts
     (alive (run plain_digest [press [2], press [2], press [2]] box)) = Some 3 \<and>
   map_option lockout_threads
     (alive (run plain_digest [press [2], press [2], press [2]] box)) = Some [30785/100] \<and>
   map_option failed_attempts
     (alive (run plain_digest [press [2], press [2], press [2, 4]] box)) = Some 4 \<and>
   map_option lockout_threads
     (alive (run plain_digest [press [2], press [2], press [2, 4]] box))
     = Some [30785/100, 3136/10]"
  by (simp add: trace_simps)

subsection \<open>C5: a wrong button\<close>

text \<open>
  Claim C5. For every configured path and every \<open>current_step\<close> below its length, processing a
  confirmed press of a button \<open>idx\<close> other than \<open>correct_path[current_step]\<close> increments
  \<open>failed_attempts\<close> by exactly 1, resets \<open>current_step\<close> to 0 and sets \<open>unlocked\<close> to false.
\<close>

theorem wrong_button_counts_and_resets:
  assumes "current_step s < length (correct_path s)"
    and "int idx \<noteq> correct_path s ! current_step s"
  shows "\<exists>s'. press_confirmed idx s = Ok s' \<and>
              failed_attempts s' = failed_attempts s + 1 \<and>
              current_step s' = 0 \<and>
              \<not> unlocked s'"
  using assms by (simp add: press_confirmed_wrong)

theorem wrong_button_counts_and_resets_witness:
  "current_step box < length (correct_path box) \<and>
   int 2 \<noteq> correct_path box ! current_step box \<and>
   (\<exists>s'. press_confirmed 2 box = Ok s' \<and>
         failed_attempts s' = failed_attempts box + 1 \<and>
         current_step s' = 0 \<and> \<not> unlocked s')"
proof -
  have a: "current_step box < length (correct_path box)"
    by (simp add: trace_simps)
  have b: "int 2 \<noteq> correct_path box ! current_step box"
    by (simp add: trace_simps)
  from wrong_button_counts_and_resets [OF a b] a b show ?thesis
    by (intro conjI)
qed

subsection \<open>C6: the default sequence\<close>



subsection \<open>C7: the fourth digit\<close>

text \<open>
  Claim C7. During PIN entry, once exactly 4 digits have been accumulated: if their salted
  hash equals the stored primary hash, the actuator is triggered exactly once and the phase
  returns success; if it equals the stored admin hash, admin mode is entered without
  triggering the actuator and the phase returns success; for any other 4-digit PIN the phase
  returns failure and increments \<open>failed_attempts\<close> by 1; in all three cases the digit buffer is
  cleared.

  The three cases are those of the source's \<^verbatim>\<open>if\<close>/\<^verbatim>\<open>elif\<close>/\<^verbatim>\<open>else\<close>, taken in that order. The
  buffer is the local variable \<^verbatim>\<open>entered_pin\<close>: it is not part of what the phase returns, and
  every later phase starts its loop with the empty buffer (last conjunct).
\<close>

theorem four_digit_pin_outcomes:
  assumes "length entered_pin = 3"
    and "\<not> pin_timeout < clock s - start_time"
    and "scan_keypad m s = Ok (Some key, s1)"
  shows "(hash_pin H (entered_pin @ [key]) = correct_pin_hash s \<longrightarrow>
            (\<exists>s'. pin_loop H entered_pin start_time (m # ms) s = Ok (True, s') \<and>
                  s' = unlock_mechanism (log_event PinOk (log_event (KeyPressed key) s1)) \<and>
                  unlock_calls s' = unlock_calls s + 1 \<and>
                  failed_attempts s' = failed_attempts s)) \<and>
         (hash_pin H (entered_pin @ [key]) \<noteq> correct_pin_hash s \<and>
          hash_pin H (entered_pin @ [key]) = admin_pin_hash s \<longrightarrow>
            (\<exists>s'. pin_loop H entered_pin start_time (m # ms) s = Ok (True, s') \<and>
                  s' = admin_mode (log_event AdminPinOk (log_event (KeyPressed key) s1)) \<and>
                  unlock_calls s' = unlock_calls s \<and>
                  failed_attempts s' = failed_attempts s)) \<and>
         (hash_pin H (entered_pin @ [key]) \<noteq> correct_pin_hash s \<and>
          hash_pin H (entered_pin @ [key]) \<noteq> admin_pin_hash s \<longrightarrow>
            (\<exists>s'. pin_loop H entered_pin start_time (m # ms) s = Ok (False, s') \<and>
                  unlock_calls s' = unlock_calls s \<and>
                  failed_attempts s' = failed_attempts s + 1)) \<and>
         handle_pin_entry H ms' t = pin_loop H [] (clock t) ms' (log_event PinEntryInitiated t)"
proof -
  from scan_keypad_agree [OF assms(3)] have a: "agree s s1" .
  let ?s2 = "log_event (KeyPressed key) s1"
  from a have h: "correct_pin_hash ?s2 = correct_pin_hash s" "admin_pin_hash ?s2 = admin_pin_hash s"
    "unlock_calls ?s2 = unlock_calls s" "failed_attempts ?s2 = failed_attempts s"
    by (simp_all add: agree_def)
  have loop: "pin_loop H entered_pin start_time (m # ms) s
                = Ok (pin_complete H (entered_pin @ [key]) ?s2)"
    using assms by simp
  have c1: "hash_pin H (entered_pin @ [key]) = correct_pin_hash s \<Longrightarrow>
            pin_complete H (entered_pin @ [key]) ?s2 = (True, unlock_mechanism (log_event PinOk ?s2))"
    using h by (simp add: pin_complete_primary)
  have c2: "hash_pin H (entered_pin @ [key]) \<noteq> correct_pin_hash s \<Longrightarrow>
            hash_pin H (entered_pin @ [key]) = admin_pin_hash s \<Longrightarrow>
            pin_complete H (entered_pin @ [key]) ?s2 = (True, admin_mode (log_event AdminPinOk ?s2))"
    using h by (simp add: pin_complete_admin)
  have c3: "hash_pin H (entered_pin @ [key]) \<noteq> correct_pin_hash s \<Longrightarrow>
            hash_pin H (entered_pin @ [key]) \<noteq> admin_pin_hash s \<Longrightarrow>
            \<exists>s'. pin_complete H (entered_pin @ [key]) ?s2 = (False, s') \<and>
                 unlock_calls s' = unlock_calls s \<and>
                 failed_attempts s' = failed_attempts s + 1"
    using h pin_complete_wrong [of H "entered_pin @ [key]" ?s2] by auto
  show ?thesis
    unfolding loop using c1 c2 c3 h by (auto simp: handle_pin_entry_def)
qed

theorem four_digit_pin_outcomes_witness:
  "length ''123'' = 3 \<and> length ''999'' = 3 \<and>
   \<not> pin_timeout < clock box - 0 \<and>
   scan_keypad (key_at 0 1) box
     = Ok (Some CHR ''4'', audio_feedback BeepSingle (sleep (51/1000) box)) \<and>
   scan_keypad (key_at 2 2) box
     = Ok (Some CHR ''9'', audio_feedback BeepSingle (sleep (53/1000) box)) \<and>
   scan_keypad (key_at 1 1) box
     = Ok (Some CHR ''5'', audio_feedback BeepSingle (sleep (52/1000) box)) \<and>
   hash_pin plain_digest (''123'' @ [CHR ''4'']) = correct_pin_hash box \<and>
   hash_pin plain_digest (''999'' @ [CHR ''9'']) \<noteq> correct_pin_hash box \<and>
   hash_pin plain_digest (''999'' @ [CHR ''9'']) = admin_pin_hash box \<and>
   hash_pin plain_digest (''123'' @ [CHR ''5'']) \<noteq> correct_pin_hash box \<and>
   hash_pin plain_digest (''123'' @ [CHR ''5'']) \<noteq> admin_pin_hash box \<and>
   (\<exists>s'. pin_loop plain_digest ''123'' 0 [key_at 0 1] box = Ok (True, s') \<and>
         unlock_calls s' = unlock_calls box + 1 \<and> failed_attempts s' = failed_attempts box) \<and>
   (\<exists>s'. pin_loop plain_digest ''999'' 0 [key_at 2 2] box = Ok (True, s') \<and>
         unlock_calls s' = unlock_calls box \<and> failed_attempts s' = failed_attempts box) \<and>
   (\<exists>s'. pin_loop plain_digest ''123'' 0 [key_at 1 1] box = Ok (False, s') \<and>
         unlock_calls s' = unlock_calls box \<and> failed_attempts s' = failed_attempts box + 1)"
proof -
  have n: "\<not> pin_timeout < clock box - 0"
    by (simp add: trace_simps pin_timeout_def)
  have l: "length ''123'' = 3" "length ''999'' = 3"
    by simp_all
  have k4: "scan_keypad (key_at 0 1) box
              = Ok (Some CHR ''4'', audio_feedback BeepSingle (sleep (51/1000) box))"
    by (rule key_4)
  have k9: "scan_keypad (key_at 2 2) box
              = Ok (Some CHR ''9'', audio_feedback BeepSingle (sleep (53/1000) box))"
    by (rule key_9)
  have k5: "scan_keypad (key_at 1 1) box
              = Ok (Some CHR ''5'', audio_feedback BeepSingle (sleep (52/1000) box))"
    by (rule key_5)
  have h4: "hash_pin plain_digest (''123'' @ [CHR ''4'']) = correct_pin_hash box"
    by (simp add: trace_simps keypad_simps)
  have h9: "hash_pin plain_digest (''999'' @ [CHR ''9'']) \<noteq> correct_pin_hash box \<and>
            hash_pin plain_digest (''999'' @ [CHR ''9'']) = admin_pin_hash box"
    by (simp add: trace_simps keypad_simps)
  have h5: "hash_pin plain_digest (''123'' @ [CHR ''5'']) \<noteq> correct_pin_hash box \<and>
            hash_pin plain_digest (''123'' @ [CHR ''5'']) \<noteq> admin_pin_hash box"
    by (simp add: trace_simps keypad_simps)
  show ?thesis
    using l n k4 k9 k5 h4 h9 h5
      four_digit_pin_outcomes [OF l(1) n k4, of plain_digest "[]"]
      four_digit_pin_outcomes [OF l(2) n k9, of plain_digest "[]"]
      four_digit_pin_outcomes [OF l(1) n k5, of plain_digest "[]"]
    by blast
qed

subsection \<open>C8: the PIN entry timeout\<close>

text \<open>
  Claim C8 says that if 30 s elapse during the PIN-entry phase before 4 digits are collected,
  measured from phase entry or from the last accepted key, the phase returns failure, the
  digit buffer is discarded and \<open>failed_attempts\<close> is left unchanged.

  \<^verbatim>\<open>handle_pin_entry\<close> tests the deadline only at the top of its loop, before it calls
  \<^verbatim>\<open>scan_keypad\<close>, and the release loop inside \<^verbatim>\<open>scan_keypad\<close> has no deadline. A key that is down
  when the scan reaches it is accepted when it is released, however late. Below, the keys 1, 2
  and 3 are typed at once and key 4 is down at the next scan and released 31 s later: the digit
  is accepted more than 30 s after the third one (first three conjuncts, for the loop with the
  buffer 123 and \<open>start_time\<close> the present time), and the whole phase returns success and triggers
  the actuator.
\<close>

theorem held_key_outlasts_deadline:
  "pin_timeout < clock (wait_release 3100 (sleep (51/1000) box)) - clock box \<and>
   map_option fst
     (returned (pin_loop plain_digest ''123'' (clock box) [key_down 0 1 3100] box)) = Some True \<and>
   map_option (unlock_calls \<circ> snd)
     (returned (pin_loop plain_digest ''123'' (clock box) [key_down 0 1 3100] box)) = Some 1 \<and>
   map_option fst
     (returned (handle_pin_entry plain_digest
                  [key_at 0 0, key_at 1 0, key_at 2 0, key_down 0 1 3100] box)) = Some True \<and>
   map_option (unlock_calls \<circ> snd)
     (returned (handle_pin_entry plain_digest
                  [key_at 0 0, key_at 1 0, key_at 2 0, key_down 0 1 3100] box)) = Some 1 \<and>
   map_option (failed_attempts \<circ> snd)
     (returned (handle_pin_entry plain_digest
                  [key_at 0 0, key_at 1 0, key_at 2 0, key_down 0 1 3100] box)) = Some 0"
  by (simp add: trace_simps keypad_simps key_down_def)

text \<open>
  Claim C8, amended. The deadline is tested at the top of every iteration of the PIN-entry
  loop: if at that point more than 30 s have passed since \<open>start_time\<close>, the phase returns
  failure, the digit buffer is discarded and \<open>failed_attempts\<close> is left unchanged (first
  conjunct). \<open>start_time\<close> is the time of phase entry (second conjunct, which also says that
  every phase starts with the empty buffer) and is set anew to the time at which
  \<^verbatim>\<open>scan_keypad\<close> returns a key that leaves the buffer short of 4 digits; a key that
  \<^verbatim>\<open>scan_keypad\<close> returns is accepted whatever the time is by then (third conjunct). So a phase
  in which no key goes down times out: after phase entry (fourth conjunct: 293 idle
  iterations of 0.103 s are enough) and after a key accepted with fewer than 4 digits (fifth
  conjunct: 292 are enough, the iteration of the key having slept 0.1 s already).
\<close>

theorem pin_entry_timeout_no_penalty:
  "(pin_timeout < clock s - start_time \<longrightarrow>
      (\<exists>s'. pin_loop H entered_pin start_time (m # ms) s = Ok (False, s') \<and>
            failed_attempts s' = failed_attempts s \<and>
            system_locked s' = system_locked s)) \<and>
   handle_pin_entry H ms' v = pin_loop H [] (clock v) ms' (log_event PinEntryInitiated v) \<and>
   (\<not> pin_timeout < clock t - start_time' \<and> scan_keypad m' t = Ok (Some key, t1) \<longrightarrow>
      pin_loop H entered_pin' start_time' (m' # ms'') t
        = (if length (entered_pin' @ [key]) = 4
           then Ok (pin_complete H (entered_pin' @ [key]) (log_event (KeyPressed key) t1))
           else pin_loop H (entered_pin' @ [key]) (clock t1) ms''
                  (sleep (1/10) (log_event (KeyPressed key) t1)))) \<and>
   (292 \<le> k \<longrightarrow>
      (\<exists>u'. handle_pin_entry H (replicate (Suc k) no_key) u = Ok (False, u') \<and>
            failed_attempts u' = failed_attempts u \<and>
            system_locked u' = system_locked u)) \<and>
   (\<not> pin_timeout < clock w - start_time'' \<and> scan_keypad m'' w = Ok (Some key', w1) \<and>
    length (entered_pin'' @ [key']) \<noteq> 4 \<and> 291 \<le> n \<longrightarrow>
      (\<exists>w'. pin_loop H entered_pin'' start_time'' (m'' # replicate (Suc n) no_key) w
              = Ok (False, w') \<and>
            failed_attempts w' = failed_attempts w \<and>
            system_locked w' = system_locked w))"
proof -
  have b: "292 \<le> k \<Longrightarrow>
      (\<exists>u'. handle_pin_entry H (replicate (Suc k) no_key) u = Ok (False, u') \<and>
            failed_attempts u' = failed_attempts u \<and>
            system_locked u' = system_locked u)"
  proof -
    assume "292 \<le> k"
    then have "real 292 \<le> real k" by (simp only: of_nat_le_iff)
    then have "pin_timeout - (clock (log_event PinEntryInitiated u) - clock u) < real k * (103/1000)"
      by (simp add: pin_timeout_def)
    from pin_loop_idle [OF this, of H "[]"] show ?thesis
      by (auto simp: handle_pin_entry_def agree_def)
  qed
  have c: "\<not> pin_timeout < clock w - start_time'' \<Longrightarrow> scan_keypad m'' w = Ok (Some key', w1) \<Longrightarrow>
           length (entered_pin'' @ [key']) \<noteq> 4 \<Longrightarrow> 291 \<le> n \<Longrightarrow>
      (\<exists>w'. pin_loop H entered_pin'' start_time'' (m'' # replicate (Suc n) no_key) w
              = Ok (False, w') \<and>
            failed_attempts w' = failed_attempts w \<and>
            system_locked w' = system_locked w)"
  proof -
    assume nt: "\<not> pin_timeout < clock w - start_time''"
      and sc: "scan_keypad m'' w = Ok (Some key', w1)"
      and l: "length (entered_pin'' @ [key']) \<noteq> 4"
      and n: "291 \<le> n"
    let ?w2 = "sleep (1/10) (log_event (KeyPressed key') w1)"
    from nt sc l have step:
      "pin_loop H entered_pin'' start_time'' (m'' # replicate (Suc n) no_key) w
         = pin_loop H (entered_pin'' @ [key']) (clock w1) (replicate (Suc n) no_key) ?w2"
      by (simp del: replicate_Suc)
    from n have "real 291 \<le> real n" by (simp only: of_nat_le_iff)
    then have "pin_timeout - (clock ?w2 - clock w1) < real n * (103/1000)"
      by (simp add: pin_timeout_def)
    from pin_loop_idle [OF this, of H "entered_pin'' @ [key']"] obtain w' where
      r: "pin_loop H (entered_pin'' @ [key']) (clock w1) (replicate (Suc n) no_key) ?w2
            = Ok (False, w')"
      and a: "agree ?w2 w'" by blast
    from scan_keypad_agree [OF sc] a have "failed_attempts w' = failed_attempts w"
      "system_locked w' = system_locked w"
      by (simp_all add: agree_def)
    with r step show ?thesis by (simp only:) blast
  qed
  have d: "\<not> pin_timeout < clock t - start_time' \<Longrightarrow> scan_keypad m' t = Ok (Some key, t1) \<Longrightarrow>
      pin_loop H entered_pin' start_time' (m' # ms'') t
        = (if length (entered_pin' @ [key]) = 4
           then Ok (pin_complete H (entered_pin' @ [key]) (log_event (KeyPressed key) t1))
           else pin_loop H (entered_pin' @ [key]) (clock t1) ms''
                  (sleep (1/10) (log_event (KeyPressed key) t1)))"
    by simp
  have e: "pin_timeout < clock s - start_time \<Longrightarrow>
      (\<exists>s'. pin_loop H entered_pin start_time (m # ms) s = Ok (False, s') \<and>
            failed_attempts s' = failed_attempts s \<and>
            system_locked s' = system_locked s)"
    by simp
  have f: "handle_pin_entry H ms' v = pin_loop H [] (clock v) ms' (log_event PinEntryInitiated v)"
    by (simp add: handle_pin_entry_def)
  from b c d e f show ?thesis by blast
qed

theorem pin_entry_timeout_no_penalty_witness:
  "pin_timeout < clock (sleep 31 box) - 0 \<and>
   (\<exists>s'. pin_loop plain_digest ''12'' 0 [no_key] (sleep 31 box) = Ok (False, s') \<and>
         failed_attempts s' = failed_attempts (sleep 31 box) \<and>
         system_locked s' = system_locked (sleep 31 box)) \<and>
   \<not> pin_timeout < clock box - 0 \<and>
   scan_keypad (key_down 0 1 3100) box
     = Ok (Some CHR ''4'', audio_feedback BeepSingle (wait_release 3100 (sleep (51/1000) box))) \<and>
   pin_loop plain_digest ''123'' 0 [key_down 0 1 3100] box
     = (if length (''123'' @ [CHR ''4'']) = 4
        then Ok (pin_complete plain_digest (''123'' @ [CHR ''4''])
                   (log_event (KeyPressed CHR ''4'')
                      (audio_feedback BeepSingle (wait_release 3100 (sleep (51/1000) box)))))
        else pin_loop plain_digest (''123'' @ [CHR ''4''])
               (clock (audio_feedback BeepSingle (wait_release 3100 (sleep (51/1000) box)))) []
               (sleep (1/10)
                  (log_event (KeyPressed CHR ''4'')
                     (audio_feedback BeepSingle (wait_release 3100 (sleep (51/1000) box)))))) \<and>
   (292::nat) \<le> 292 \<and>
   (\<exists>u'. handle_pin_entry plain_digest (replicate (Suc 292) no_key) box = Ok (False, u') \<and>
         failed_attempts u' = failed_attempts box \<and>
         system_locked u' = system_locked box) \<and>
   length (''12'' @ [CHR ''4'']) \<noteq> 4 \<and> (291::nat) \<le> 291 \<and>
   (\<exists>w'. pin_loop plain_digest ''12'' 0 (key_down 0 1 3100 # replicate (Suc 291) no_key) box
           = Ok (False, w') \<and>
         failed_attempts w' = failed_attempts box \<and>
         system_locked w' = system_locked box)"
proof -
  have a: "pin_timeout < clock (sleep 31 box) - 0"
    by (simp add: trace_simps pin_timeout_def)
  have n: "\<not> pin_timeout < clock box - 0"
    by (simp add: trace_simps pin_timeout_def)
  have k: "scan_keypad (key_down 0 1 3100) box
     = Ok (Some CHR ''4'', audio_feedback BeepSingle (wait_release 3100 (sleep (51/1000) box)))"
    by (rule key_4_down)
  have b: "(292::nat) \<le> 292" and c: "(291::nat) \<le> 291"
    by simp_all
  have l: "length (''12'' @ [CHR ''4'']) \<noteq> 4"
    by simp
  show ?thesis
    using a n k b c l
      pin_entry_timeout_no_penalty [of "sleep 31 box" 0 plain_digest "''12''" no_key "[]"]
      pin_entry_timeout_no_penalty
        [where t = box and start_time' = 0 and m' = "key_down 0 1 3100" and key = "CHR ''4''"
           and ?t1.0 = "audio_feedback BeepSingle (wait_release 3100 (sleep (51/1000) box))"
           and H = plain_digest and entered_pin' = "''123''" and ms'' = "[]"]
      pin_entry_timeout_no_penalty [where k = 292 and u = box and H = plain_digest]
      pin_entry_timeout_no_penalty
        [where w = box and start_time'' = 0 and m'' = "key_down 0 1 3100" and key' = "CHR ''4''"
           and ?w1.0 = "audio_feedback BeepSingle (wait_release 3100 (sleep (51/1000) box))"
           and H = plain_digest and entered_pin'' = "''12''" and n = 291]
    by blast
qed

subsection \<open>C9: one cooldown at a time\<close>

text \<open>
  Claim C9. At most one cooldown task is ever active: triggering a lockout while an earlier
  cooldown timer is pending does not create two overlapping cooldown tasks that each clear
  \<open>locked\<close> and \<open>failed_attempts\<close>, and the increment and threshold check of a failure are atomic
  with respect to a cooldown-expiry reset that runs at the same time.

  \<^verbatim>\<open>initiate_lockout\<close> starts a thread whenever it is called, and a scan pass that has locked
  the system goes on processing the buttons that follow. With buttons 1, 2, 3 and 4 down in
  one pass of the fresh lockbox, two cooldown threads are asleep at clock 13.5, due at 307.65
  and 313.4. The first one clears the lock and the counter (\<open>double_lockout\<close>); a wrong button
  then brings the counter to 1; the second one, waking up after 47 more idle iterations, sets
  it back to 0. How the two threads interleave with one increment of the main thread is below
  the grain of this model, in which a thread runs between two iterations of the main loop.
\<close>

theorem cooldown_threads_overlap:
  "map_option lockout_threads (alive (run plain_digest [press [1, 2, 3, 4]] box))
     = Some [30765/100, 3134/10] \<and>
   map_option clock (alive (run plain_digest [press [1, 2, 3, 4]] box)) = Some (135/10) \<and>
   map_option failed_attempts (alive (run plain_digest [press [1, 2, 3, 4]] box)) = Some 4 \<and>
   map_option failed_attempts (alive (run plain_digest double_lockout box)) = Some 0 \<and>
   map_option failed_attempts
     (alive (run plain_digest (double_lockout @ [press [5]]) box)) = Some 1 \<and>
   map_option system_locked
     (alive (run plain_digest (double_lockout @ [press [5]]) box)) = Some False \<and>
   map_option failed_attempts
     (alive (run plain_digest
               (double_lockout @ press [5] # replicate 47 idle @ [TimerExpires]) box))
     = Some 0 \<and>
   map_option lockout_threads
     (alive (run plain_digest
               (double_lockout @ press [5] # replicate 47 idle @ [TimerExpires]) box))
     = Some []"
  by (simp add: trace_simps)

subsection \<open>C10: the reset\<close>

text \<open>
  Claim C10. \<^verbatim>\<open>reset_system\<close> is idempotent: calling it twice in a row leaves the state as
  calling it once does (\<open>current_step = 0\<close>, \<open>unlocked = false\<close>, all position LEDs off); and it
  modifies only \<open>current_step\<close>, \<open>unlocked\<close> and the LED and status outputs, leaving
  \<open>failed_attempts\<close>, \<open>system_locked\<close> and the loaded credentials unchanged.

  The state is the one of the specification's data model; the event log, which the
  specification gives to the event log collaborator, receives the line "System reset
  completed" at every call. Fifth conjunct: the second call changes nothing but that log.
  Sixth: the first call changes the four outputs and the log, and no other field.
\<close>

theorem reset_system_idempotent_frame:
  "current_step (reset_system s) = 0 \<and>
   \<not> unlocked (reset_system s) \<and>
   led_pins (reset_system s) = replicate (length (led_pins s)) False \<and>
   \<not> status_led (reset_system s) \<and>
   reset_system (reset_system s)
     = (reset_system s)\<lparr>event_log := event_log (reset_system (reset_system s))\<rparr> \<and>
   reset_system s
     = s\<lparr>led_pins := replicate (length (led_pins s)) False,
         current_step := 0,
         unlocked := False,
         status_led := False,
         event_log := event_log (log_event ResetCompleted s)\<rparr> \<and>
   failed_attempts (reset_system s) = failed_attempts s \<and>
   system_locked (reset_system s) = system_locked s \<and>
   correct_path (reset_system s) = correct_path s \<and>
   correct_pin_hash (reset_system s) = correct_pin_hash s \<and>
   admin_pin_hash (reset_system s) = admin_pin_hash s"
  by (simp add: reset_system_def log_event_def Let_def map_replicate_const)

end
